theory Spec2Isabelle
  imports Complex_Main "HOL-Library.AList"
begin

section \<open>Process enumeration: the data model\<close>

text \<open>
  The development follows the process-enumeration utility \<^verbatim>\<open>listProcesses\<close>. Its
  external effects (spawning \<^verbatim>\<open>ps\<close> or the PowerShell helper) are inputs of the model:
  the captured standard output, the captured standard error and, on POSIX, whether
  \<^verbatim>\<open>exec\<close> reported an error.

  Numbers. A JavaScript number that holds a process id is a natural number here (process
  ids are far below \<open>2 ^ 53\<close>, where the integers stop being exact). A number that holds
  a load or a memory figure is a \<open>jsnum\<close>: the rational value of a finite double, or one
  of the three special values. \<^verbatim>\<open>parseFloat\<close> rounds the decimal it reads to the nearest
  double (\<open>to_double\<close>); the sum and the quotient of the Windows samples are taken over the
  rationals, without rounding.
\<close>

datatype jsnum = Num rat | PosInf | NegInf | NaN

definition js_div :: "rat \<Rightarrow> rat \<Rightarrow> jsnum" where
  \<comment> \<open>\<^verbatim>\<open>x / y\<close> on finite numbers: a zero divisor gives \<^verbatim>\<open>NaN\<close> or an infinity.\<close>
  "js_div x y =
     (if y \<noteq> 0 then Num (x / y)
      else if x = 0 then NaN
      else if 0 < x then PosInf else NegInf)"

text \<open>
  Objects. \<^verbatim>\<open>ProcessItem\<close> objects are shared: the same object is held by the pid map and
  by the \<^verbatim>\<open>children\<close> array of its parent. The model keeps every allocated object in a
  heap (a list; the address of an object is its index) and \<^verbatim>\<open>children\<close> holds addresses.
  The optional field \<^verbatim>\<open>children?\<close> is an \<open>option\<close>: \<open>None\<close> is the field left out.
  An address held by a pid map or by a \<^verbatim>\<open>children\<close> array is always allocated (lemmas
  \<open>addToTree_inv\<close>, \<open>collect_props\<close> and \<open>windows_heap\<close> below), so no read of the heap is
  out of range.
\<close>

record ProcessItem =
  name :: string
  cmd :: string
  pid :: nat
  ppid :: nat
  load :: jsnum
  mem :: jsnum
  children :: "nat list option"

type_synonym heap = "ProcessItem list"

text \<open>
  A JavaScript \<^verbatim>\<open>Map<number, ProcessItem>\<close> is an association list from pid to address in
  insertion order: \<^verbatim>\<open>get\<close> is \<^const>\<open>map_of\<close>, \<^verbatim>\<open>set\<close> is \<^const>\<open>AList.update\<close> (a key
  that is already present keeps its position), \<^verbatim>\<open>forEach\<close> walks the list.
\<close>

type_synonym pidmap = "(nat \<times> nat) list"

datatype error =
    Error string            \<comment> \<open>\<^verbatim>\<open>new Error(message)\<close>\<close>
  | Thrown                  \<comment> \<open>an exception caught by the \<^verbatim>\<open>try\<close> block (\<^verbatim>\<open>JSON.parse\<close>)\<close>
  | ExecError               \<comment> \<open>the \<^verbatim>\<open>err\<close> object of the \<^verbatim>\<open>exec\<close> callback\<close>
  | StderrText string       \<comment> \<open>\<^verbatim>\<open>stderr.toString()\<close>\<close>

datatype promise =
    Resolved "nat option" heap   \<comment> \<open>\<^verbatim>\<open>resolve(rootItem)\<close>: the root's address, \<open>None\<close> for \<^verbatim>\<open>undefined\<close>\<close>
  | Rejected error

section \<open>Characters and the regular expressions of the source\<close>

text \<open>
  A string is a list of 8-bit characters. Each regular expression of the source is a
  matcher written for that expression. All of them are deterministic: wherever two
  adjacent parts of a pattern could compete for a character the classes are disjoint, so
  the greedy match is the only one, except for the last group of \<^verbatim>\<open>PID_CMD\<close>, whose
  backtracking is written out.
\<close>

abbreviation bslash :: char where "bslash \<equiv> CHR 0x5C"
abbreviation dquote :: char where "dquote \<equiv> CHR 0x22"

definition is_alpha_dash :: "char \<Rightarrow> bool" where
  \<comment> \<open>the class \<^verbatim>\<open>[a-zA-Z-]\<close>\<close>
  "is_alpha_dash c = (let n = (of_char c :: nat) in
     (97 \<le> n \<and> n \<le> 122) \<or> (65 \<le> n \<and> n \<le> 90) \<or> n = 45)"

definition is_digit :: "char \<Rightarrow> bool" where
  \<comment> \<open>the class \<^verbatim>\<open>[0-9]\<close>\<close>
  "is_digit c = (let n = (of_char c :: nat) in 48 \<le> n \<and> n \<le> 57)"

definition is_space :: "char \<Rightarrow> bool" where
  \<comment> \<open>\<^verbatim>\<open>\s\<close> and the characters \<^verbatim>\<open>trim\<close> removes, among the 8-bit characters:
      tab, line feed, vertical tab, form feed, carriage return, space, no-break space\<close>
  "is_space c = (let n = (of_char c :: nat) in (9 \<le> n \<and> n \<le> 13) \<or> n = 32 \<or> n = 160)"

definition is_dot :: "char \<Rightarrow> bool" where
  \<comment> \<open>\<^verbatim>\<open>.\<close>: any character but a line terminator\<close>
  "is_dot c = (let n = (of_char c :: nat) in n \<noteq> 10 \<and> n \<noteq> 13)"

fun starts_with :: "string \<Rightarrow> string \<Rightarrow> bool" where
  \<comment> \<open>\<^verbatim>\<open>s.indexOf(p) === 0\<close>\<close>
  "starts_with [] s = True"
| "starts_with (p # ps) [] = False"
| "starts_with (p # ps) (c # cs) = (p = c \<and> starts_with ps cs)"

fun re_test :: "string \<Rightarrow> string \<Rightarrow> bool" where
  \<comment> \<open>\<^verbatim>\<open>/p/.exec(s)\<close> is not null, for a pattern \<open>p\<close> that is a literal text: the text
      occurs at some position of \<open>s\<close>\<close>
  "re_test p [] = starts_with p []"
| "re_test p (c # cs) = (starts_with p (c # cs) \<or> re_test p cs)"

definition RENDERER_PROCESS_HINT :: string where
  "RENDERER_PROCESS_HINT = ''--disable-blink-features=Auxclick''"

definition WINDOWS_WATCHER_HINT :: string where
  "WINDOWS_WATCHER_HINT =
     bslash # ''watcher'' @ bslash # ''win32'' @ bslash # ''CodeHelper.exe''"

definition WINDOWS_CRASH_REPORTER :: string where
  "WINDOWS_CRASH_REPORTER = ''--crashes-directory''"

definition WINDOWS_PTY :: string where
  "WINDOWS_PTY = bslash # ''pipe'' @ bslash # ''winpty-control''"

definition WINDOWS_CONSOLE_HOST :: string where
  "WINDOWS_CONSOLE_HOST = ''conhost.exe''"

fun TYPE_exec :: "string \<Rightarrow> string option" where
  \<comment> \<open>\<^verbatim>\<open>/--type=([a-zA-Z-]+)/.exec(s)\<close>: group 1 of the leftmost match. At a position the
      text \<^verbatim>\<open>--type=\<close> must be followed by at least one character of the class; the
      group is the longest run of them.\<close>
  "TYPE_exec [] = None"
| "TYPE_exec (c # cs) =
     (if starts_with ''--type='' (c # cs) \<and> takeWhile is_alpha_dash (drop 7 (c # cs)) \<noteq> []
      then Some (takeWhile is_alpha_dash (drop 7 (c # cs)))
      else TYPE_exec cs)"

function JS_exec_all :: "string \<Rightarrow> string list" where
  \<comment> \<open>the \<^verbatim>\<open>do ... while (matches)\<close> loop over \<^verbatim>\<open>/[a-zA-Z-]+\.js/g\<close>: every match, left to
      right, each search starting where the match before ended. A match at a position is
      the longest run of the class there, followed by \<^verbatim>\<open>.js\<close> (a shorter run would have
      to be followed by a dot where a character of the class stands).\<close>
  "JS_exec_all [] = []"
| "JS_exec_all (c # cs) =
     (if takeWhile is_alpha_dash (c # cs) \<noteq> []
         \<and> starts_with ''.js'' (dropWhile is_alpha_dash (c # cs))
      then (takeWhile is_alpha_dash (c # cs) @ ''.js'')
             # JS_exec_all (drop 3 (dropWhile is_alpha_dash (c # cs)))
      else JS_exec_all cs)"
  by pat_completeness auto
termination
  by (relation "measure length")
     (auto intro: le_imp_less_Suc order_trans[OF diff_le_self] length_dropWhile_le)

section \<open>Name classification\<close>

definition findName :: "string \<Rightarrow> string" where
  "findName cmdline =
     (if re_test WINDOWS_WATCHER_HINT cmdline then ''watcherService ''
      else if re_test WINDOWS_CRASH_REPORTER cmdline then ''electron-crash-reporter''
      else if re_test WINDOWS_PTY cmdline then ''winpty-process''
      else if re_test WINDOWS_CONSOLE_HOST cmdline
        then ''console-window-host (Windows internal process)''
      else case TYPE_exec cmdline of
        Some m1 \<Rightarrow>
          (if m1 = ''renderer''
           then (if \<not> re_test RENDERER_PROCESS_HINT cmdline then ''shared-process''
                 else ''window'')
           else m1)
      | None \<Rightarrow>
          (let result = concat (map (\<lambda>m. m @ '' '') (JS_exec_all cmdline)) in
           if result \<noteq> []
           then (if \<not> starts_with ''node '' cmdline then ''electron_node '' @ result
                 else cmdline)
           else cmdline))"

section \<open>Tree assembly on the POSIX path\<close>

definition child_list :: "ProcessItem \<Rightarrow> nat list" where
  \<comment> \<open>the children of a record, an absent field read as no children\<close>
  "child_list it = (case children it of None \<Rightarrow> [] | Some cs \<Rightarrow> cs)"

definition sort_by_pid :: "heap \<Rightarrow> nat list \<Rightarrow> nat list" where
  \<comment> \<open>\<^verbatim>\<open>children.sort((a, b) => a.pid - b.pid)\<close>; the sort is stable, which matters only
      between records of equal pid\<close>
  "sort_by_pid h cs = sort_key (\<lambda>c. pid (h ! c)) cs"

record closure =
  heap_of :: heap
  map_of_pids :: pidmap          \<comment> \<open>\<^verbatim>\<open>const map = new Map<number, ProcessItem>()\<close>\<close>
  rootItem :: "nat option"       \<comment> \<open>\<^verbatim>\<open>let rootItem: ProcessItem\<close>, at first \<^verbatim>\<open>undefined\<close>\<close>

definition init_closure :: closure where
  "init_closure = \<lparr>heap_of = [], map_of_pids = [], rootItem = None\<rparr>"

definition push_sorted :: "heap \<Rightarrow> nat \<Rightarrow> nat \<Rightarrow> heap" where
  \<comment> \<open>lines 51 to 57: create the array when absent, push, sort when longer than one\<close>
  "push_sorted h pa a =
     (let cs = child_list (h ! pa) @ [a];
          cs' = (if length cs > 1 then sort_by_pid h cs else cs)
      in h[pa := (h ! pa)\<lparr>children := Some cs'\<rparr>])"

definition addToTree ::
  "nat \<Rightarrow> closure \<Rightarrow> nat \<Rightarrow> nat \<Rightarrow> string \<Rightarrow> jsnum \<Rightarrow> jsnum \<Rightarrow> closure" where
  "addToTree rootPid s pid' ppid' cmd' load' mem' =
     (let parent = map_of (map_of_pids s) ppid' in
      if pid' = rootPid \<or> parent \<noteq> None then
        let item = \<lparr>name = findName cmd', cmd = cmd', pid = pid', ppid = ppid',
                     load = load', mem = mem', children = None\<rparr>;
            a = length (heap_of s);
            s1 = s\<lparr>heap_of := heap_of s @ [item],
                   map_of_pids := AList.update pid' a (map_of_pids s)\<rparr>;
            s2 = (if pid' = rootPid then s1\<lparr>rootItem := Some a\<rparr> else s1)
        in (case parent of
              None \<Rightarrow> s2
            | Some pa \<Rightarrow> s2\<lparr>heap_of := push_sorted (heap_of s2) pa a\<rparr>)
      else s)"

section \<open>Parsing the output of ps\<close>

definition trim :: "string \<Rightarrow> string" where
  "trim s = rev (dropWhile is_space (rev (dropWhile is_space s)))"

fun split_on :: "char \<Rightarrow> string \<Rightarrow> string list" where
  \<comment> \<open>\<^verbatim>\<open>s.split(c)\<close>: the pieces between the separators; the empty string gives one
      empty piece\<close>
  "split_on sep [] = [] # []"
| "split_on sep (c # cs) =
     (if c = sep then [] # split_on sep cs
      else (case split_on sep cs of
              [] \<Rightarrow> [c] # []
            | p # ps \<Rightarrow> (c # p) # ps))"

definition digits1 :: "string \<Rightarrow> (string \<times> string) option" where
  \<comment> \<open>\<^verbatim>\<open>([0-9]+)\<close>: the run of digits and what follows it\<close>
  "digits1 s = (if takeWhile is_digit s = [] then None
                else Some (takeWhile is_digit s, dropWhile is_digit s))"

definition spaces1 :: "string \<Rightarrow> string option" where
  \<comment> \<open>\<^verbatim>\<open>\s+\<close> before a digit: what follows the run of white space\<close>
  "spaces1 s = (if takeWhile is_space s = [] then None else Some (dropWhile is_space s))"

definition decimal1 :: "string \<Rightarrow> (string \<times> string) option" where
  \<comment> \<open>\<^verbatim>\<open>([0-9]+\.[0-9]+)\<close>\<close>
  "decimal1 s =
     (case digits1 s of
        None \<Rightarrow> None
      | Some (ip, r) \<Rightarrow>
          (case r of
             [] \<Rightarrow> None
           | c # r' \<Rightarrow>
               if c \<noteq> CHR ''.'' then None
               else (case digits1 r' of
                       None \<Rightarrow> None
                     | Some (fp, r'') \<Rightarrow> Some (ip @ ''.'' @ fp, r''))))"

definition rest1 :: "string \<Rightarrow> string option" where
  \<comment> \<open>\<^verbatim>\<open>\s+(.+)$\<close>. The white space is taken greedily. If text follows it, the group is that
      text, which must hold no line terminator. If the string ends with the white space,
      the expression backtracks and gives the last white-space character to the group;
      that needs two of them, the last one not a line terminator.\<close>
  "rest1 s =
     (let ws = takeWhile is_space s; r = dropWhile is_space s in
      if ws = [] then None
      else if r \<noteq> [] then (if list_all is_dot r then Some r else None)
      else if 2 \<le> length ws \<and> is_dot (last ws) then Some [last ws]
      else None)"

definition PID_CMD_exec :: "string \<Rightarrow> (string \<times> string \<times> string \<times> string \<times> string) option" where
  \<comment> \<open>\<^verbatim>\<open>/^\s*([0-9]+)\s+([0-9]+)\s+([0-9]+\.[0-9]+)\s+([0-9]+\.[0-9]+)\s+(.+)$/\<close>: the five groups\<close>
  "PID_CMD_exec s =
     (case digits1 (dropWhile is_space s) of None \<Rightarrow> None | Some (m1, s1) \<Rightarrow>
      case spaces1 s1 of None \<Rightarrow> None | Some s2 \<Rightarrow>
      case digits1 s2 of None \<Rightarrow> None | Some (m2, s3) \<Rightarrow>
      case spaces1 s3 of None \<Rightarrow> None | Some s4 \<Rightarrow>
      case decimal1 s4 of None \<Rightarrow> None | Some (m3, s5) \<Rightarrow>
      case spaces1 s5 of None \<Rightarrow> None | Some s6 \<Rightarrow>
      case decimal1 s6 of None \<Rightarrow> None | Some (m4, s7) \<Rightarrow>
      case rest1 s7 of None \<Rightarrow> None | Some m5 \<Rightarrow>
      Some (m1, m2, m3, m4, m5))"

definition digit_val :: "char \<Rightarrow> nat" where
  "digit_val c = of_char c - 48"

definition parseInt :: "string \<Rightarrow> nat" where
  \<comment> \<open>\<^verbatim>\<open>parseInt\<close> on a string of decimal digits (the only strings it is given)\<close>
  "parseInt s = foldl (\<lambda>n c. 10 * n + digit_val c) 0 (takeWhile is_digit s)"

fun bit_length :: "nat \<Rightarrow> nat" where
  \<comment> \<open>the number of binary digits of a number\<close>
  "bit_length n = (if n = 0 then 0 else Suc (bit_length (n div 2)))"

declare bit_length.simps [simp del]

definition floor_log2 :: "nat \<Rightarrow> nat \<Rightarrow> int" where
  \<comment> \<open>the exponent \<open>t\<close> with \<open>2 ^ t \<le> n / d < 2 ^ (t + 1)\<close>, for positive \<open>n\<close> and \<open>d\<close>\<close>
  "floor_log2 n d =
     (let t = int (bit_length n) - int (bit_length d) in
      if (if 0 \<le> t then d * 2 ^ nat t \<le> n else d \<le> n * 2 ^ nat (- t)) then t else t - 1)"

definition to_double :: "nat \<Rightarrow> nat \<Rightarrow> jsnum" where
  \<comment> \<open>the Number value of the fraction \<open>n / d\<close>: the nearest IEEE double, ties to the even
      mantissa, as the engines compute it. The mantissa \<open>m\<close> has at most 53 bits and the
      exponent \<open>e\<close> is at least \<open>-1074\<close> (below that the doubles are subnormal); a value
      that rounds to \<open>2 ^ 1024\<close> or more is \<^verbatim>\<open>Infinity\<close>.\<close>
  "to_double n d =
     (if n = 0 then Num 0
      else
        let e = max (floor_log2 n d - 52) (- 1074);
            num = (if 0 \<le> e then n else n * 2 ^ nat (- e));
            den = (if 0 \<le> e then d * 2 ^ nat e else d);
            q = num div den;
            r = num mod den;
            m = (if 2 * r < den then q
                 else if den < 2 * r then q + 1
                 else if even q then q else q + 1)
        in if 0 \<le> e \<and> 2 ^ 1024 \<le> m * 2 ^ nat e then PosInf
           else Num (if 0 \<le> e then of_nat (m * 2 ^ nat e) else of_nat m / 2 ^ nat (- e)))"

definition parseFloat :: "string \<Rightarrow> jsnum" where
  \<comment> \<open>\<^verbatim>\<open>parseFloat\<close> on digits, then optionally a dot and digits: the double nearest to the
      decimal, which is the digits read as one number over the power of ten of the
      fraction's length\<close>
  "parseFloat s =
     (let ip = takeWhile is_digit s; r = dropWhile is_digit s;
          fp = (if starts_with ''.'' r then takeWhile is_digit (drop 1 r) else [])
      in if ip = [] \<and> fp = [] then NaN
         else to_double (foldl (\<lambda>n c. 10 * n + digit_val c) 0 (ip @ fp)) (10 ^ length fp))"

definition posix_line :: "nat \<Rightarrow> string \<Rightarrow> closure \<Rightarrow> closure" where
  \<comment> \<open>the body of the loop over the lines\<close>
  "posix_line rootPid line s =
     (case PID_CMD_exec (trim line) of
        None \<Rightarrow> s
      | Some (m1, m2, m3, m4, m5) \<Rightarrow>
          addToTree rootPid s (parseInt m1) (parseInt m2) m5 (parseFloat m3) (parseFloat m4))"

fun posix_lines :: "nat \<Rightarrow> string list \<Rightarrow> closure \<Rightarrow> closure" where
  "posix_lines rootPid [] s = s"
| "posix_lines rootPid (line # lines) s = posix_lines rootPid lines (posix_line rootPid line s)"

definition posix_listProcesses :: "nat \<Rightarrow> bool \<Rightarrow> string \<Rightarrow> string \<Rightarrow> promise" where
  \<comment> \<open>the callback of \<^verbatim>\<open>exec\<close>: \<open>err\<close> says whether \<^verbatim>\<open>exec\<close> passed an error object\<close>
  "posix_listProcesses rootPid err stdout stderr =
     (if err \<or> stderr \<noteq> [] then Rejected (if err then ExecError else StderrText stderr)
      else let s = posix_lines rootPid (split_on (CHR 0x0A) stdout) init_closure
           in Resolved (rootItem s) (heap_of s))"

section \<open>The Windows path\<close>

text \<open>
  The output of the helper is taken as already parsed: a list of records of the declared
  type \<^verbatim>\<open>Item\<close>, or nothing when \<^verbatim>\<open>JSON.parse\<close> throws. Pids are natural numbers and
  the samples and the working-set size are rationals.
\<close>

datatype item_type = processInfo | topProcess

record Item =
  type :: item_type
  item_name :: string
  processId :: nat
  parentProcessId :: nat
  commandLine :: string
  handles :: nat
  cpuLoad :: "rat list option"     \<comment> \<open>\<open>None\<close>: the field is missing or \<^verbatim>\<open>null\<close>\<close>
  workingSetSize :: rat

definition cleanUNCPrefix :: "string \<Rightarrow> string" where
  "cleanUNCPrefix v =
     (if starts_with [bslash, bslash, CHR ''?'', bslash] v then drop 4 v
      else if starts_with [bslash, CHR ''?'', CHR ''?'', bslash] v then drop 4 v
      else if starts_with [dquote, bslash, bslash, CHR ''?'', bslash] v then dquote # drop 5 v
      else if starts_with [dquote, bslash, CHR ''?'', CHR ''?'', bslash] v then dquote # drop 5 v
      else v)"

definition average_load :: "rat list option \<Rightarrow> jsnum" where
  \<comment> \<open>lines 189 to 197. An array, empty or not, is truthy: only a missing \<^verbatim>\<open>cpuLoad\<close>
      takes the \<^verbatim>\<open>else\<close> branch.\<close>
  "average_load cl =
     (case cl of
        Some vs \<Rightarrow> js_div (foldl (+) 0 vs) (of_nat (length vs))
      | None \<Rightarrow> Num (- 1))"

definition item_record :: "Item \<Rightarrow> ProcessItem" where
  "item_record it =
     (let commandLine' = cleanUNCPrefix (commandLine it) in
      \<lparr>name = findName commandLine', cmd = commandLine', pid = processId it,
       ppid = parentProcessId it, load = average_load (cpuLoad it),
       mem = Num (workingSetSize it), children = None\<rparr>)"

fun collect :: "Item list \<Rightarrow> heap \<Rightarrow> pidmap \<Rightarrow> heap \<times> pidmap" where
  \<comment> \<open>the loop over the parsed items: \<^verbatim>\<open>processItems.set(item.processId, {...})\<close>\<close>
  "collect [] h m = (h, m)"
| "collect (it # its) h m =
     (if type it = processInfo
      then collect its (h @ [item_record it]) (AList.update (processId it) (length h) m)
      else collect its h m)"

fun link_pass :: "pidmap \<Rightarrow> pidmap \<Rightarrow> heap \<Rightarrow> heap" where
  \<comment> \<open>the first \<^verbatim>\<open>forEach\<close>; the first argument is what is left of the walk, the second
      the whole map\<close>
  "link_pass [] m h = h"
| "link_pass ((k, a) # es) m h =
     link_pass es m
       (case map_of m (ppid (h ! a)) of
          None \<Rightarrow> h
        | Some pa \<Rightarrow> h[pa := (h ! pa)\<lparr>children := Some (child_list (h ! pa) @ [a])\<rparr>])"

fun sort_pass :: "pidmap \<Rightarrow> heap \<Rightarrow> heap" where
  \<comment> \<open>the second \<^verbatim>\<open>forEach\<close>\<close>
  "sort_pass [] h = h"
| "sort_pass ((k, a) # es) h =
     sort_pass es
       (case children (h ! a) of
          None \<Rightarrow> h
        | Some cs \<Rightarrow> h[a := (h ! a)\<lparr>children := Some (sort_by_pid h cs)\<rparr>])"

fun show_digits :: "nat \<Rightarrow> nat \<Rightarrow> string" where
  \<comment> \<open>the decimal digits of a number below \<open>10 ^ n\<close>, without leading zeros\<close>
  "show_digits 0 k = []"
| "show_digits (Suc n) k =
     (if k < 10 then [char_of (48 + k)]
      else show_digits n (k div 10) @ [char_of (48 + k mod 10)])"

definition show_nat :: "nat \<Rightarrow> string" where
  \<comment> \<open>a number in a template string: its decimal digits\<close>
  "show_nat k = show_digits (Suc k) k"

definition windows_listProcesses :: "nat \<Rightarrow> string \<Rightarrow> Item list option \<Rightarrow> promise" where
  \<comment> \<open>the handler of \<^verbatim>\<open>exit\<close>: \<open>parsed\<close> is \<^verbatim>\<open>JSON.parse(stdout)\<close>, \<open>None\<close> when it throws\<close>
  "windows_listProcesses rootPid stderr parsed =
     (if stderr \<noteq> [] then Rejected (Error stderr)
      else case parsed of
        None \<Rightarrow> Rejected Thrown
      | Some items \<Rightarrow>
          (case collect items [] [] of (h, processItems) \<Rightarrow>
             (case map_of processItems rootPid of
                Some r \<Rightarrow> Resolved (Some r) (sort_pass processItems (link_pass processItems processItems h))
              | None \<Rightarrow> Rejected (Error (''Root process '' @ show_nat rootPid @ '' not found'')))))"

section \<open>Reading the returned structure\<close>

datatype ptree = PNode nat "ptree list option"

fun tree_of :: "nat \<Rightarrow> heap \<Rightarrow> nat \<Rightarrow> ptree option" where
  \<comment> \<open>the structure below an address, unfolded to a tree of pids; \<open>None\<close> when the depth
      bound is reached before the leaves\<close>
  "tree_of 0 h a = None"
| "tree_of (Suc n) h a =
     (case children (h ! a) of
        None \<Rightarrow> Some (PNode (pid (h ! a)) None)
      | Some cs \<Rightarrow>
          (case those (map (tree_of n h) cs) of
             None \<Rightarrow> None
           | Some ts \<Rightarrow> Some (PNode (pid (h ! a)) (Some ts))))"

inductive reach :: "heap \<Rightarrow> nat \<Rightarrow> nat \<Rightarrow> bool" for h r where
  \<comment> \<open>the records of the structure returned with root \<open>r\<close>\<close>
  reach_root: "reach h r r"
| reach_child: "reach h r p \<Longrightarrow> a \<in> set (child_list (h ! p)) \<Longrightarrow> reach h r a"

section \<open>Notions used to state the properties\<close>

definition run_of :: "(char \<Rightarrow> bool) \<Rightarrow> string \<Rightarrow> bool" where
  \<comment> \<open>a non-empty text made of characters of one class\<close>
  "run_of P s = (s \<noteq> [] \<and> list_all P s)"

primrec digits_value :: "string \<Rightarrow> nat" where
  \<comment> \<open>the number a text of decimal digits denotes: each digit times the power of ten of
      its place\<close>
  "digits_value [] = 0"
| "digits_value (c # cs) = digit_val c * 10 ^ length cs + digits_value cs"

definition line_record :: "string \<Rightarrow> (nat \<times> nat) option" where
  \<comment> \<open>the pid and the parent pid a line of the listing gives, if it matches\<close>
  "line_record line =
     (case PID_CMD_exec (trim line) of
        None \<Rightarrow> None
      | Some (m1, m2, m3, m4, m5) \<Rightarrow> Some (parseInt m1, parseInt m2))"

definition posix_records :: "string list \<Rightarrow> (nat \<times> nat) set" where
  \<comment> \<open>the raw listing on POSIX, as pairs of pid and parent pid\<close>
  "posix_records lines = {r. \<exists>l\<in>set lines. line_record l = Some r}"

definition line_pids :: "string list \<Rightarrow> nat list" where
  \<comment> \<open>the pids of the matching lines, in order\<close>
  "line_pids lines = map fst (List.map_filter line_record lines)"

definition win_records :: "Item list \<Rightarrow> (nat \<times> nat) set" where
  \<comment> \<open>the raw listing on Windows: the snapshot records, as pairs of pid and parent pid\<close>
  "win_records items =
     {(processId it, parentProcessId it) | it. it \<in> set items \<and> type it = processInfo}"

inductive descends :: "(nat \<times> nat) set \<Rightarrow> nat \<Rightarrow> nat \<Rightarrow> bool" for R rootPid where
  \<comment> \<open>the ancestry chain of a pid in the listing \<open>R\<close> reaches \<open>rootPid\<close>\<close>
  descends_root: "descends R rootPid rootPid"
| descends_step: "(p, pp) \<in> R \<Longrightarrow> descends R rootPid pp \<Longrightarrow> descends R rootPid p"

definition wf_heap :: "(nat \<times> nat) set \<Rightarrow> heap \<Rightarrow> bool" where
  \<comment> \<open>every record comes from the listing; a \<^verbatim>\<open>children\<close> array that is present is not
      empty, holds records whose parent pid is the pid of the record, and is ascending\<close>
  "wf_heap R h \<longleftrightarrow>
     (\<forall>x<length h.
        (pid (h ! x), ppid (h ! x)) \<in> R
        \<and> children (h ! x) \<noteq> Some []
        \<and> (\<forall>c\<in>set (child_list (h ! x)). c < length h \<and> ppid (h ! c) = pid (h ! x))
        \<and> sorted (map (\<lambda>c. pid (h ! c)) (child_list (h ! x))))"

definition strict_heap :: "heap \<Rightarrow> bool" where
  \<comment> \<open>every \<^verbatim>\<open>children\<close> array is strictly ascending by pid\<close>
  "strict_heap h \<longleftrightarrow>
     (\<forall>x<length h. sorted_wrt (<) (map (\<lambda>c. pid (h ! c)) (child_list (h ! x))))"

definition map_inv :: "pidmap \<Rightarrow> heap \<Rightarrow> bool" where
  \<comment> \<open>the pid map holds allocated records under their own pid\<close>
  "map_inv m h \<longleftrightarrow> (\<forall>k a. map_of m k = Some a \<longrightarrow> a < length h \<and> pid (h ! a) = k)"

definition snapshot :: "nat \<Rightarrow> nat \<Rightarrow> Item" where
  \<comment> \<open>a snapshot record of the helper with the given pid and parent pid, for examples\<close>
  "snapshot p pp = \<lparr>type = processInfo, item_name = ''code.exe'', processId = p,
     parentProcessId = pp, commandLine = ''code.exe'', handles = 0, cpuLoad = None,
     workingSetSize = 0\<rparr>"

subsection \<open>Notions used in the proofs\<close>

definition closure_inv :: "(nat \<times> nat) set \<Rightarrow> nat \<Rightarrow> closure \<Rightarrow> bool" where
  \<comment> \<open>the invariant of the POSIX loop: the pid map, the heap and \<^verbatim>\<open>rootItem\<close> agree\<close>
  "closure_inv R rootPid s \<longleftrightarrow>
     map_inv (map_of_pids s) (heap_of s) \<and> wf_heap R (heap_of s)
     \<and> (\<forall>r. rootItem s = Some r \<longrightarrow> r < length (heap_of s) \<and> pid (heap_of s ! r) = rootPid)"

definition new_item :: "nat \<Rightarrow> nat \<Rightarrow> string \<Rightarrow> jsnum \<Rightarrow> jsnum \<Rightarrow> ProcessItem" where
  \<comment> \<open>the object literal of \<^verbatim>\<open>addToTree\<close>\<close>
  "new_item p pp c ld mm = \<lparr>name = findName c, cmd = c, pid = p, ppid = pp, load = ld, mem = mm, children = None\<rparr>"

definition seen_heap :: "nat set \<Rightarrow> heap \<Rightarrow> bool" where
  \<comment> \<open>the pids in the heap are among \<open>seen\<close>; no two children of a record share a pid\<close>
  "seen_heap seen h \<longleftrightarrow>
     (\<forall>x<length h. pid (h ! x) \<in> seen
        \<and> distinct (map (\<lambda>c. pid (h ! c)) (child_list (h ! x))))"

definition fresh_heap :: "(nat \<times> nat) set \<Rightarrow> heap \<Rightarrow> bool" where
  \<comment> \<open>the heap after the collecting loop: records of the listing, none with children\<close>
  "fresh_heap R h \<longleftrightarrow> (\<forall>x<length h. children (h ! x) = None \<and> (pid (h ! x), ppid (h ! x)) \<in> R)"

definition link_step :: "pidmap \<Rightarrow> heap \<Rightarrow> nat \<Rightarrow> heap" where
  \<comment> \<open>one call of the callback of the first \<^verbatim>\<open>forEach\<close>\<close>
  "link_step m h a =
     (case map_of m (ppid (h ! a)) of
        None \<Rightarrow> h
      | Some pa \<Rightarrow> h[pa := (h ! pa)\<lparr>children := Some (child_list (h ! pa) @ [a])\<rparr>])"

definition sort_step :: "heap \<Rightarrow> nat \<Rightarrow> heap" where
  \<comment> \<open>one call of the callback of the second \<^verbatim>\<open>forEach\<close>\<close>
  "sort_step h a =
     (case children (h ! a) of
        None \<Rightarrow> h
      | Some cs \<Rightarrow> h[a := (h ! a)\<lparr>children := Some (sort_by_pid h cs)\<rparr>])"

definition linked :: "pidmap \<Rightarrow> heap \<Rightarrow> pidmap \<Rightarrow> nat \<Rightarrow> nat list" where
  \<comment> \<open>the addresses among the entries \<open>es\<close> whose parent pid is mapped to \<open>x\<close>, in order\<close>
  "linked m h es x = map snd (filter (\<lambda>(k, a). map_of m (ppid (h ! a)) = Some x) es)"

section \<open>Properties of the matchers\<close>

lemmas findName_eval =
  findName_def WINDOWS_WATCHER_HINT_def WINDOWS_CRASH_REPORTER_def WINDOWS_PTY_def
  WINDOWS_CONSOLE_HOST_def RENDERER_PROCESS_HINT_def is_alpha_dash_def

lemma starts_with_iff: "starts_with p s \<longleftrightarrow> (\<exists>b. s = p @ b)"
  by (induction p s rule: starts_with.induct) auto

lemma starts_with_take: "starts_with p s \<longleftrightarrow> take (length p) s = p"
  by (induction p s rule: starts_with.induct) auto

lemma re_test_iff: "re_test p s \<longleftrightarrow> (\<exists>a b. s = a @ p @ b)"
proof (induction s)
  case Nil
  show ?case by (auto simp: starts_with_iff)
next
  case (Cons c cs)
  show ?case
  proof
    assume "re_test p (c # cs)"
    then consider "starts_with p (c # cs)" | "re_test p cs" by auto
    then show "\<exists>a b. c # cs = a @ p @ b"
    proof cases
      case 1
      then obtain b where "c # cs = [] @ p @ b" by (auto simp: starts_with_iff)
      then show ?thesis by blast
    next
      case 2
      then obtain a b where "cs = a @ p @ b" using Cons.IH by auto
      then have "c # cs = (c # a) @ p @ b" by simp
      then show ?thesis by blast
    qed
  next
    assume "\<exists>a b. c # cs = a @ p @ b"
    then obtain a b where ab: "c # cs = a @ p @ b" by auto
    show "re_test p (c # cs)"
    proof (cases a)
      case Nil
      with ab have "starts_with p (c # cs)" unfolding starts_with_iff by auto
      then show ?thesis by simp
    next
      case (Cons x a')
      with ab have "cs = a' @ p @ b" by simp
      then show ?thesis using Cons.IH by auto
    qed
  qed
qed

lemma takeWhile_run:
  "\<forall>x\<in>set v. P x \<Longrightarrow> post = [] \<or> \<not> P (hd post) \<Longrightarrow> takeWhile P (v @ post) = v"
  by (cases post) (simp_all add: takeWhile_append2)

lemma dropWhile_run:
  "\<forall>x\<in>set v. P x \<Longrightarrow> post = [] \<or> \<not> P (hd post) \<Longrightarrow> dropWhile P (v @ post) = post"
  by (cases post) (simp_all add: dropWhile_append2)

lemma takeWhile_nonempty: "takeWhile P xs \<noteq> [] \<longleftrightarrow> xs \<noteq> [] \<and> P (hd xs)"
  by (cases xs) auto

lemma takeWhile_drop_nonempty:
  assumes "takeWhile P (drop n xs) \<noteq> []"
  shows "n < length xs \<and> P (xs ! n)"
proof -
  from assms have d: "drop n xs \<noteq> []" "P (hd (drop n xs))"
    using takeWhile_nonempty[of P "drop n xs"] by blast+
  from d(1) have "n < length xs" by simp
  with d(2) show ?thesis by (simp add: hd_drop_conv_nth)
qed

lemma TYPE_exec_here:
  assumes "v \<noteq> []" "\<forall>x\<in>set v. is_alpha_dash x" "post = [] \<or> \<not> is_alpha_dash (hd post)"
  shows "TYPE_exec (''--type='' @ v @ post) = Some v"
proof -
  have "takeWhile is_alpha_dash (v @ post) = v"
    using assms(2,3) by (rule takeWhile_run)
  with assms(1) show ?thesis by simp
qed

lemma TYPE_exec_skip:
  assumes "\<forall>i<length pre. \<not> (take 7 (drop i (pre @ s)) = ''--type=''
             \<and> i + 7 < length (pre @ s) \<and> is_alpha_dash ((pre @ s) ! (i + 7)))"
  shows "TYPE_exec (pre @ s) = TYPE_exec s"
  using assms
proof (induction pre)
  case Nil
  show ?case by simp
next
  case (Cons x pre)
  let ?c = "x # pre @ s"
  from Cons.prems have h0: "\<not> (take 7 ?c = ''--type='' \<and> 7 < length ?c \<and> is_alpha_dash (?c ! 7))"
    by (metis (no_types, lifting) add_0 append_Cons drop0 length_Cons zero_less_Suc)
  have nomatch: "\<not> (starts_with ''--type='' ?c \<and> takeWhile is_alpha_dash (drop 7 ?c) \<noteq> [])"
  proof
    assume a: "starts_with ''--type='' ?c \<and> takeWhile is_alpha_dash (drop 7 ?c) \<noteq> []"
    then have "starts_with ''--type='' ?c" ..
    then have "take (length ''--type='') ?c = ''--type=''" by (simp only: starts_with_take)
    moreover have "length ''--type='' = 7" by simp
    ultimately have t: "take 7 ?c = ''--type=''" by (simp only:)
    from a have "takeWhile is_alpha_dash (drop 7 ?c) \<noteq> []" ..
    then have l: "7 < length ?c \<and> is_alpha_dash (?c ! 7)"
      by (rule takeWhile_drop_nonempty)
    with t h0 l show False by blast
  qed
  have "\<forall>i<length pre. \<not> (take 7 (drop i (pre @ s)) = ''--type=''
             \<and> i + 7 < length (pre @ s) \<and> is_alpha_dash ((pre @ s) ! (i + 7)))"
  proof (intro allI impI)
    fix i assume "i < length pre"
    then have "Suc i < length (x # pre)" by simp
    from Cons.prems[rule_format, OF this]
    show "\<not> (take 7 (drop i (pre @ s)) = ''--type=''
             \<and> i + 7 < length (pre @ s) \<and> is_alpha_dash ((pre @ s) ! (i + 7)))"
      by (simp add: add.commute)
  qed
  then have "TYPE_exec (pre @ s) = TYPE_exec s" by (rule Cons.IH)
  moreover have "TYPE_exec ?c = TYPE_exec (pre @ s)"
    using nomatch by (simp only: TYPE_exec.simps if_False)
  ultimately show ?case by simp
qed

section \<open>Name classification: the claims\<close>

text \<open>
  C6, as amended. The expression \<^verbatim>\<open>/--type=([a-zA-Z-]+)/\<close> reads the value of the flag as a
  run of letters and hyphens. A command line that matches none of the four Windows
  signatures and whose first \<^verbatim>\<open>--type=\<close> followed by a letter or hyphen carries the run
  \<open>v\<close> (the flag is \<open>pre @ ''--type='' @ v @ post\<close>, the run ends where \<open>post\<close> begins, and no
  text \<^verbatim>\<open>--type=\<close> followed by a letter or hyphen begins before it) is classified as
  \<open>window\<close> when \<open>v\<close> is \<open>renderer\<close> and the renderer hint
  \<^verbatim>\<open>--disable-blink-features=Auxclick\<close> occurs, as \<open>shared-process\<close> when \<open>v\<close> is
  \<open>renderer\<close> and the hint does not occur, and as \<open>v\<close> itself otherwise.
\<close>

theorem findName_type_flag:
  assumes "\<not> re_test WINDOWS_WATCHER_HINT c" "\<not> re_test WINDOWS_CRASH_REPORTER c"
    "\<not> re_test WINDOWS_PTY c" "\<not> re_test WINDOWS_CONSOLE_HOST c"
    and "c = pre @ ''--type='' @ v @ post"
    and "v \<noteq> []" "\<forall>x\<in>set v. is_alpha_dash x" "post = [] \<or> \<not> is_alpha_dash (hd post)"
    and "\<forall>i<length pre. \<not> (take 7 (drop i c) = ''--type=''
             \<and> i + 7 < length c \<and> is_alpha_dash (c ! (i + 7)))"
  shows "findName c =
     (if v = ''renderer''
      then (if re_test RENDERER_PROCESS_HINT c then ''window'' else ''shared-process'')
      else v)"
proof -
  have "TYPE_exec c = TYPE_exec (''--type='' @ v @ post)"
    using assms(5,9) TYPE_exec_skip[of pre "''--type='' @ v @ post"] by simp
  also have "\<dots> = Some v" using assms(6-8) by (rule TYPE_exec_here)
  finally show ?thesis using assms(1-4) by (simp add: findName_def)
qed

theorem findName_type_flag_witness:
  "findName ''code --type=renderer --disable-blink-features=Auxclick --x'' = ''window''"
proof -
  let ?c = "''code --type=renderer --disable-blink-features=Auxclick --x''"
  have left: "\<forall>i<length ''code ''. \<not> (take 7 (drop i ?c) = ''--type=''
             \<and> i + 7 < length ?c \<and> is_alpha_dash (?c ! (i + 7)))"
  proof (intro allI impI)
    fix i :: nat assume "i < length ''code ''"
    then consider "i = 0" | "i = 1" | "i = 2" | "i = 3" | "i = 4" by fastforce
    then show "\<not> (take 7 (drop i ?c) = ''--type=''
             \<and> i + 7 < length ?c \<and> is_alpha_dash (?c ! (i + 7)))"
      by cases simp_all
  qed
  have v: "\<forall>x\<in>set ''renderer''. is_alpha_dash x"
    by (simp add: is_alpha_dash_def)
  have p: "\<not> is_alpha_dash (hd '' --disable-blink-features=Auxclick --x'')"
    by (simp add: is_alpha_dash_def)
  have n: "\<not> re_test WINDOWS_WATCHER_HINT ?c" "\<not> re_test WINDOWS_CRASH_REPORTER ?c"
    "\<not> re_test WINDOWS_PTY ?c" "\<not> re_test WINDOWS_CONSOLE_HOST ?c"
    by (simp_all add: WINDOWS_WATCHER_HINT_def WINDOWS_CRASH_REPORTER_def WINDOWS_PTY_def
        WINDOWS_CONSOLE_HOST_def)
  have r: "re_test RENDERER_PROCESS_HINT ?c"
    by (simp add: RENDERER_PROCESS_HINT_def)
  show ?thesis
    using findName_type_flag[of ?c "''code ''" "''renderer''"
        "'' --disable-blink-features=Auxclick --x''", OF n _ _ v _ left] p r
    by simp
qed

text \<open>The three command lines the specification lists for this rule.\<close>

lemma findName_type_examples:
  "findName ''code --type=renderer --disable-blink-features=Auxclick --x'' = ''window''"
  "findName ''code --type=renderer --x'' = ''shared-process''"
  "findName ''--type=gpu-process'' = ''gpu-process''"
  by (simp_all add: findName_eval)

text \<open>
  C6 as written, for every value of the flag, does not hold: a value with a character
  that is neither a letter nor a hyphen is cut at that character. The flag
  \<^verbatim>\<open>--type=gpu_process\<close> is not classified as \<open>gpu_process\<close> but as \<open>gpu\<close>, and
  \<^verbatim>\<open>--type=renderer2\<close>, whose value is not \<open>renderer\<close>, is not classified as \<open>renderer2\<close>
  but as \<open>shared-process\<close>.
\<close>

theorem findName_type_flag_counterexample:
  "findName ''--type=gpu_process'' = ''gpu''
   \<and> findName ''--type=gpu_process'' \<noteq> ''gpu_process''
   \<and> findName ''--type=renderer2'' = ''shared-process''
   \<and> findName ''--type=renderer2'' \<noteq> ''renderer2''"
  by (simp add: findName_eval)

text \<open>
  C7. In the script-name rule, \<^verbatim>\<open>node foo.js bar.js\<close> is returned as it is, since it starts
  with \<^verbatim>\<open>node \<close>, and \<^verbatim>\<open>/usr/bin/x foo.js\<close> becomes \<^verbatim>\<open>electron_node foo.js \<close>: the prefix,
  then each matched script name followed by a space. Both command lines reach the rule
  with a match (the script names found are listed).
\<close>

theorem findName_script_rule:
  "findName ''node foo.js bar.js'' = ''node foo.js bar.js''
   \<and> JS_exec_all ''node foo.js bar.js'' = [''foo.js'', ''bar.js'']
   \<and> starts_with ''node '' ''node foo.js bar.js''
   \<and> findName ''/usr/bin/x foo.js'' = ''electron_node foo.js ''
   \<and> JS_exec_all ''/usr/bin/x foo.js'' = [''foo.js'']
   \<and> \<not> starts_with ''node '' ''/usr/bin/x foo.js''"
  by (simp add: findName_eval)

text \<open>
  The watcher rule comes first: a command line with the watcher signature gets the
  watcher label whatever else it contains.
\<close>

lemma findName_watcher_first:
  "re_test WINDOWS_WATCHER_HINT c \<Longrightarrow> findName c = ''watcherService ''"
  by (simp add: findName_def)

text \<open>
  C8 says that a command line with the watcher signature is labelled exactly
  \<open>watcherService\<close>. The label the function returns ends with a space: on the command
  line of the watcher helper the result is \<open>watcherService\<close> followed by a space, which is
  not the label of the claim.
\<close>

theorem findName_watcher_label:
  "findName (''C:'' @ bslash # ''watcher'' @ bslash # ''win32'' @ bslash # ''CodeHelper.exe'')
     = ''watcherService ''
   \<and> findName (''C:'' @ bslash # ''watcher'' @ bslash # ''win32'' @ bslash # ''CodeHelper.exe'')
     \<noteq> ''watcherService''"
  by (simp add: findName_eval)

section \<open>The load of a snapshot record\<close>

lemma foldl_plus_sum_list: "foldl (+) a vs = a + sum_list (vs :: rat list)"
  by (induction vs arbitrary: a) simp_all

text \<open>
  The load is the mean of the samples when there is at least one, and \<open>-1\<close> when the
  field is missing.
\<close>

lemma average_load_mean:
  "vs \<noteq> [] \<Longrightarrow> average_load (Some vs) = Num (sum_list vs / of_nat (length vs))"
  by (simp add: average_load_def js_div_def foldl_plus_sum_list)

lemma average_load_missing: "average_load None = Num (- 1)"
  by (simp add: average_load_def)

text \<open>
  C5 says that the load is \<open>-1\<close> also when the sample array is empty. An empty array is
  truthy, the sum stays \<open>0\<close> and is divided by the length \<open>0\<close>: the load of the record is
  \<open>NaN\<close>, not \<open>-1\<close>.
\<close>

theorem average_load_empty:
  "average_load (Some []) = NaN
   \<and> load (item_record \<lparr>type = processInfo, item_name = ''code.exe'', processId = 7,
        parentProcessId = 1, commandLine = ''code.exe'', handles = 0, cpuLoad = Some [],
        workingSetSize = 0\<rparr>) \<noteq> Num (- 1)"
  by (simp add: average_load_def js_div_def item_record_def Let_def)

section \<open>The parser of the ps output\<close>


lemma dot_not_digit: "\<not> is_digit (CHR ''.'')"
  by (simp add: is_digit_def)



lemma run_takeWhile:
  "run_of P s \<Longrightarrow> t = [] \<or> \<not> P (hd t) \<Longrightarrow> takeWhile P (s @ t) = s"
  by (rule takeWhile_run) (auto simp: run_of_def list_all_iff)

lemma run_dropWhile:
  "run_of P s \<Longrightarrow> t = [] \<or> \<not> P (hd t) \<Longrightarrow> dropWhile P (s @ t) = t"
  by (rule dropWhile_run) (auto simp: run_of_def list_all_iff)







lemma parseInt_digits: "list_all is_digit d \<Longrightarrow> parseInt d = foldl (\<lambda>n c. 10 * n + digit_val c) 0 d"
proof -
  assume "list_all is_digit d"
  then have "takeWhile is_digit d = d" by (simp add: list_all_iff)
  then show ?thesis by (simp only: parseInt_def)
qed

lemma foldl_digits_value:
  "foldl (\<lambda>n c. 10 * n + digit_val c) a d = a * 10 ^ length d + digits_value d"
  by (induction d arbitrary: a) (simp_all add: algebra_simps)


lemma parseFloat_decimal:
  assumes "run_of is_digit ip" "run_of is_digit fp"
  shows "parseFloat (ip @ ''.'' @ fp) = to_double (digits_value (ip @ fp)) (10 ^ length fp)"
proof -
  have 1: "takeWhile is_digit (ip @ ''.'' @ fp) = ip" "dropWhile is_digit (ip @ ''.'' @ fp) = ''.'' @ fp"
    using assms(1) by (simp_all add: run_takeWhile run_dropWhile dot_not_digit)
  have 2: "takeWhile is_digit fp = fp"
    using assms(2) by (simp add: run_of_def list_all_iff)
  have 3: "ip \<noteq> []" using assms(1) by (simp add: run_of_def)
  have 4: "foldl (\<lambda>n c. 10 * n + digit_val c) 0 (ip @ fp) = digits_value (ip @ fp)"
    by (simp only: foldl_digits_value)
  show ?thesis
    unfolding parseFloat_def 1 by (simp add: 2 3 4 del: foldl_append)
qed

text \<open>
  Some decimals and their doubles: \<^verbatim>\<open>0.1\<close>, \<^verbatim>\<open>99.9\<close> and \<^verbatim>\<open>3.7\<close> are rounded, \<^verbatim>\<open>12.25\<close> and
  \<^verbatim>\<open>100.0\<close> are doubles themselves.
\<close>

lemma to_double_examples:
  "to_double 1 10 = Num (3602879701896397 / 36028797018963968)"
  "to_double 999 10 = Num (3514918771674317 / 35184372088832)"
  "to_double 37 10 = Num (4165829655317709 / 1125899906842624)"
  "to_double 1225 100 = Num (49 / 4)"
  "to_double 1000 10 = Num 100"
  "to_double 0 10 = Num 0"
  by (simp_all add: to_double_def floor_log2_def bit_length.simps Let_def)

lemma to_double_tenth: "to_double (Suc 0) 10 = Num (3602879701896397 / 36028797018963968)"
  using to_double_examples(1) by simp

lemma parseFloat_examples:
  "parseFloat ''0.1'' = Num (3602879701896397 / 36028797018963968)"
  "parseFloat ''99.9'' = Num (3514918771674317 / 35184372088832)"
  "parseFloat ''3.7'' = Num (4165829655317709 / 1125899906842624)"
  "parseFloat ''12.25'' = Num (49 / 4)"
  "parseFloat ''100.0'' = Num 100"
  "parseFloat ''0.0'' = Num 0"
proof -
  have r: "run_of is_digit ''0''" "run_of is_digit ''1''" "run_of is_digit ''99''"
    "run_of is_digit ''9''" "run_of is_digit ''3''" "run_of is_digit ''7''"
    "run_of is_digit ''12''" "run_of is_digit ''25''" "run_of is_digit ''100''"
    by (simp_all add: run_of_def is_digit_def)
  show "parseFloat ''0.1'' = Num (3602879701896397 / 36028797018963968)"
    using parseFloat_decimal[OF r(1) r(2)] by (simp add: digit_val_def to_double_examples to_double_tenth)
  show "parseFloat ''99.9'' = Num (3514918771674317 / 35184372088832)"
    using parseFloat_decimal[OF r(3) r(4)] by (simp add: digit_val_def to_double_examples to_double_tenth)
  show "parseFloat ''3.7'' = Num (4165829655317709 / 1125899906842624)"
    using parseFloat_decimal[OF r(5) r(6)] by (simp add: digit_val_def to_double_examples to_double_tenth)
  show "parseFloat ''12.25'' = Num (49 / 4)"
    using parseFloat_decimal[OF r(7) r(8)] by (simp add: digit_val_def to_double_examples to_double_tenth)
  show "parseFloat ''100.0'' = Num 100"
    using parseFloat_decimal[OF r(9) r(1)] by (simp add: digit_val_def to_double_examples to_double_tenth)
  show "parseFloat ''0.0'' = Num 0"
    using parseFloat_decimal[OF r(1) r(1)] by (simp add: digit_val_def to_double_examples to_double_tenth)
qed





text \<open>
  The decimal text of a number, as a template string writes it, reads back as the
  number.
\<close>

lemma digit_char:
  assumes "k < 10"
  shows "is_digit (char_of (48 + k))" "digit_val (char_of (48 + k)) = k"
proof -
  have "of_char (char_of (48 + k) :: char) = (48 + k) mod 256" by simp
  also have "\<dots> = 48 + k" using assms by simp
  finally have e: "(of_char (char_of (48 + k) :: char) :: nat) = 48 + k" .
  show "is_digit (char_of (48 + k))" using assms by (simp add: is_digit_def e)
  show "digit_val (char_of (48 + k)) = k" unfolding digit_val_def e by simp
qed

lemma show_digits_value:
  "k < 10 ^ n \<Longrightarrow> list_all is_digit (show_digits n k)
     \<and> foldl (\<lambda>a c. 10 * a + digit_val c) 0 (show_digits n k) = k"
proof (induction n arbitrary: k)
  case 0
  then show ?case by simp
next
  case (Suc n)
  show ?case
  proof (cases "k < 10")
    case True
    then show ?thesis by (simp add: digit_char)
  next
    case False
    from Suc.prems have "k div 10 < 10 ^ n" by (simp add: less_mult_imp_div_less mult.commute)
    from Suc.IH[OF this] have ih: "list_all is_digit (show_digits n (k div 10))"
      "foldl (\<lambda>a c. 10 * a + digit_val c) 0 (show_digits n (k div 10)) = k div 10" by blast+
    have m: "k mod 10 < 10" by simp
    show ?thesis using False ih digit_char[OF m] by simp
  qed
qed

lemma less_ten_power: "k < 10 ^ Suc k"
proof -
  have "k < 2 ^ k" by (rule less_exp)
  also have "(2::nat) ^ k \<le> 10 ^ k" by (rule power_mono) simp_all
  also have "(10::nat) ^ k \<le> 10 ^ Suc k" by simp
  finally show ?thesis .
qed

lemma parseInt_show_nat: "parseInt (show_nat k) = k"
proof -
  from show_digits_value[OF less_ten_power[of k]]
  have "list_all is_digit (show_nat k)"
    "foldl (\<lambda>a c. 10 * a + digit_val c) 0 (show_nat k) = k"
    by (simp_all add: show_nat_def)
  then show ?thesis by (simp add: parseInt_digits)
qed

section \<open>The heap under the two assemblies\<close>

subsection \<open>Updating the children of one record\<close>

lemma upd_children_pid [simp]:
  "pid (h[a := (h ! a)\<lparr>children := X\<rparr>] ! c) = pid (h ! c)"
  by (cases "a < length h"; cases "a = c") (simp_all add: list_update_beyond)

lemma upd_children_ppid [simp]:
  "ppid (h[a := (h ! a)\<lparr>children := X\<rparr>] ! c) = ppid (h ! c)"
  by (cases "a < length h"; cases "a = c") (simp_all add: list_update_beyond)

lemma upd_children_children:
  "children (h[a := (h ! a)\<lparr>children := X\<rparr>] ! c) =
     (if c = a \<and> a < length h then X else children (h ! c))"
  by (cases "a < length h"; cases "a = c") (simp_all add: list_update_beyond)

lemma upd_children_child_list:
  "child_list (h[a := (h ! a)\<lparr>children := Some cs\<rparr>] ! c) =
     (if c = a \<and> a < length h then cs else child_list (h ! c))"
  by (simp add: child_list_def upd_children_children)

lemma sort_by_pid_upd [simp]:
  "sort_by_pid (h[a := (h ! a)\<lparr>children := X\<rparr>]) = sort_by_pid h"
  by (simp add: sort_by_pid_def fun_eq_iff)

lemma set_sort_by_pid [simp]: "set (sort_by_pid h cs) = set cs"
  by (simp add: sort_by_pid_def)

lemma sort_by_pid_Nil [simp]: "sort_by_pid h cs = [] \<longleftrightarrow> cs = []"
  by (metis length_0_conv length_sort sort_by_pid_def)

lemma sorted_sort_by_pid: "sorted (map (\<lambda>c. pid (h ! c)) (sort_by_pid h cs))"
  by (simp add: sort_by_pid_def sorted_sort_key)

lemma distinct_map_sort_by_pid:
  "distinct (map f (sort_by_pid h cs)) = distinct (map f cs)"
  by (simp add: distinct_map sort_by_pid_def)

subsection \<open>The steps of addToTree keep the heap well formed\<close>

lemma wf_heap_alloc:
  assumes "wf_heap R h" "(p, pp) \<in> R" "pid it = p" "ppid it = pp" "children it = None"
  shows "wf_heap R (h @ [it])"
  unfolding wf_heap_def
proof (intro allI impI)
  fix x assume "x < length (h @ [it])"
  then consider "x < length h" | "x = length h" by fastforce
  then show "(pid ((h @ [it]) ! x), ppid ((h @ [it]) ! x)) \<in> R
        \<and> children ((h @ [it]) ! x) \<noteq> Some []
        \<and> (\<forall>c\<in>set (child_list ((h @ [it]) ! x)). c < length (h @ [it]) \<and> ppid ((h @ [it]) ! c) = pid ((h @ [it]) ! x))
        \<and> sorted (map (\<lambda>c. pid ((h @ [it]) ! c)) (child_list ((h @ [it]) ! x)))"
  proof cases
    case 1
    with assms(1) have w: "(pid (h ! x), ppid (h ! x)) \<in> R" "children (h ! x) \<noteq> Some []"
      "\<forall>c\<in>set (child_list (h ! x)). c < length h \<and> ppid (h ! c) = pid (h ! x)"
      "sorted (map (\<lambda>c. pid (h ! c)) (child_list (h ! x)))"
      by (auto simp: wf_heap_def)
    have hx: "(h @ [it]) ! x = h ! x" using 1 by (simp add: nth_append)
    have hc: "\<And>c. c \<in> set (child_list (h ! x)) \<Longrightarrow> (h @ [it]) ! c = h ! c"
      using w(3) by (simp add: nth_append)
    have meq: "map (\<lambda>c. pid ((h @ [it]) ! c)) (child_list (h ! x))
        = map (\<lambda>c. pid (h ! c)) (child_list (h ! x))"
      using hc by (intro map_cong) simp_all
    show ?thesis unfolding hx meq using w hc by auto
  next
    case 2
    with assms(2-5) show ?thesis by (simp add: child_list_def)
  qed
qed

lemma push_sorted_pid [simp]: "pid (push_sorted h pa a ! c) = pid (h ! c)"
  by (simp add: push_sorted_def Let_def)

lemma push_sorted_ppid [simp]: "ppid (push_sorted h pa a ! c) = ppid (h ! c)"
  by (simp add: push_sorted_def Let_def)

lemma push_sorted_length [simp]: "length (push_sorted h pa a) = length h"
  by (simp add: push_sorted_def Let_def)

lemma push_sorted_child_list:
  "child_list (push_sorted h pa a ! x) =
     (if x = pa \<and> pa < length h
      then (if length (child_list (h ! pa) @ [a]) > 1 then sort_by_pid h (child_list (h ! pa) @ [a])
            else child_list (h ! pa) @ [a])
      else child_list (h ! x))"
  by (simp add: push_sorted_def Let_def upd_children_child_list)

lemma push_sorted_children:
  "children (push_sorted h pa a ! x) =
     (if x = pa \<and> pa < length h
      then Some (if length (child_list (h ! pa) @ [a]) > 1 then sort_by_pid h (child_list (h ! pa) @ [a])
            else child_list (h ! pa) @ [a])
      else children (h ! x))"
  by (simp add: push_sorted_def Let_def upd_children_children)

lemma set_push_sorted:
  "x < length h \<Longrightarrow> set (child_list (push_sorted h pa a ! x)) =
     (if x = pa then insert a (set (child_list (h ! pa))) else set (child_list (h ! x)))"
  by (simp add: push_sorted_child_list)

lemma sorted_one: "length xs \<le> 1 \<Longrightarrow> sorted (map f xs)"
  by (cases xs) simp_all

lemma sorted_push_sorted:
  assumes "sorted (map (\<lambda>c. pid (h ! c)) (child_list (h ! x)))"
  shows "sorted (map (\<lambda>c. pid (push_sorted h pa a ! c)) (child_list (push_sorted h pa a ! x)))"
proof -
  have "sorted (map (\<lambda>c. pid (h ! c)) (child_list (push_sorted h pa a ! x)))"
    using assms by (auto simp: push_sorted_child_list sorted_sort_by_pid)
  then show ?thesis by simp
qed

lemma wf_heap_push:
  assumes "wf_heap R h" "pa < length h" "a < length h" "ppid (h ! a) = pid (h ! pa)"
  shows "wf_heap R (push_sorted h pa a)"
  unfolding wf_heap_def
proof (intro allI impI)
  let ?h = "push_sorted h pa a"
  fix x assume "x < length ?h"
  then have x: "x < length h" by simp
  with assms(1) have w: "(pid (h ! x), ppid (h ! x)) \<in> R" "children (h ! x) \<noteq> Some []"
      "\<forall>c\<in>set (child_list (h ! x)). c < length h \<and> ppid (h ! c) = pid (h ! x)"
      "sorted (map (\<lambda>c. pid (h ! c)) (child_list (h ! x)))"
    by (auto simp: wf_heap_def)
  have 1: "(pid (?h ! x), ppid (?h ! x)) \<in> R" using w(1) by simp
  have 2: "children (?h ! x) \<noteq> Some []" using w(2) by (simp add: push_sorted_children)
  have 3: "\<forall>c\<in>set (child_list (?h ! x)). c < length ?h \<and> ppid (?h ! c) = pid (?h ! x)"
    using w(3) assms(2-4) x by (auto simp: set_push_sorted split: if_splits)
  have 4: "sorted (map (\<lambda>c. pid (?h ! c)) (child_list (?h ! x)))"
    using w(4) by (rule sorted_push_sorted)
  from 1 2 3 4 show "(pid (?h ! x), ppid (?h ! x)) \<in> R
        \<and> children (?h ! x) \<noteq> Some []
        \<and> (\<forall>c\<in>set (child_list (?h ! x)). c < length ?h \<and> ppid (?h ! c) = pid (?h ! x))
        \<and> sorted (map (\<lambda>c. pid (?h ! c)) (child_list (?h ! x)))" by blast
qed

lemma addToTree_skip:
  "p \<noteq> r \<Longrightarrow> map_of (map_of_pids s) pp = None \<Longrightarrow> addToTree r s p pp c ld mm = s"
  by (simp add: addToTree_def)

lemma addToTree_add:
  assumes "p = r \<or> map_of (map_of_pids s) pp \<noteq> None"
  shows "heap_of (addToTree r s p pp c ld mm) =
           (case map_of (map_of_pids s) pp of
              None \<Rightarrow> heap_of s @ [new_item p pp c ld mm]
            | Some pa \<Rightarrow> push_sorted (heap_of s @ [new_item p pp c ld mm]) pa (length (heap_of s)))"
    and "map_of_pids (addToTree r s p pp c ld mm) = AList.update p (length (heap_of s)) (map_of_pids s)"
    and "rootItem (addToTree r s p pp c ld mm) = (if p = r then Some (length (heap_of s)) else rootItem s)"
  using assms by (auto simp: addToTree_def Let_def new_item_def split: option.split)

lemma new_item_simps [simp]:
  "pid (new_item p pp c ld mm) = p" "ppid (new_item p pp c ld mm) = pp"
  "children (new_item p pp c ld mm) = None"
  by (simp_all add: new_item_def)

lemma addToTree_inv:
  assumes inv: "closure_inv R rootPid s" and rec: "(p, pp) \<in> R"
  shows "closure_inv R rootPid (addToTree rootPid s p pp c ld mm)"
proof (cases "p = rootPid \<or> map_of (map_of_pids s) pp \<noteq> None")
  case False
  then show ?thesis using inv by (simp add: addToTree_skip)
next
  case True
  let ?s = "addToTree rootPid s p pp c ld mm"
  let ?h = "heap_of s"
  let ?n = "length ?h"
  let ?H = "?h @ [new_item p pp c ld mm]"
  note eqs = addToTree_add[OF True, of c ld mm]
  from inv have mi: "map_inv (map_of_pids s) ?h" and wf: "wf_heap R ?h"
    and ri: "\<forall>r. rootItem s = Some r \<longrightarrow> r < ?n \<and> pid (?h ! r) = rootPid"
    by (simp_all add: closure_inv_def)
  have wfH: "wf_heap R ?H" using wf rec by (rule wf_heap_alloc) simp_all
  have pidH: "\<And>a. a < ?n \<Longrightarrow> pid (?H ! a) = pid (?h ! a)" by (simp add: nth_append)
  have pidn: "pid (?H ! ?n) = p" "ppid (?H ! ?n) = pp" by simp_all
  have hp: "length (heap_of ?s) = Suc ?n \<and> (\<forall>a. pid (heap_of ?s ! a) = pid (?H ! a)) \<and> wf_heap R (heap_of ?s)"
  proof (cases "map_of (map_of_pids s) pp")
    case None
    then show ?thesis using eqs(1) wfH by simp
  next
    case (Some pa)
    with mi have pa: "pa < ?n" "pid (?h ! pa) = pp" by (auto simp: map_inv_def)
    have "wf_heap R (push_sorted ?H pa ?n)"
      using wfH by (rule wf_heap_push) (use pa pidH pidn in simp_all)
    then show ?thesis using eqs(1) Some by simp
  qed
  from hp have len: "length (heap_of ?s) = Suc ?n"
    and pidS: "\<And>a. pid (heap_of ?s ! a) = pid (?H ! a)" by blast+
  have old_addr: "a < length (heap_of ?s) \<and> pid (heap_of ?s ! a) = pid (?h ! a)" if "a < ?n" for a
  proof -
    have "pid (heap_of ?s ! a) = pid (?H ! a)" by (rule pidS)
    also have "\<dots> = pid (?h ! a)" using that by (rule pidH)
    finally show ?thesis using that len by linarith
  qed
  have new_addr: "?n < length (heap_of ?s) \<and> pid (heap_of ?s ! ?n) = p"
  proof -
    have "pid (heap_of ?s ! ?n) = pid (?H ! ?n)" by (rule pidS)
    then show ?thesis using len pidn(1) by linarith
  qed
  have 1: "map_inv (map_of_pids ?s) (heap_of ?s)"
    unfolding map_inv_def eqs(2)
  proof (intro allI impI)
    fix k a assume "map_of (AList.update p ?n (map_of_pids s)) k = Some a"
    then consider (new) "k = p" "a = ?n" | (old) "k \<noteq> p" "map_of (map_of_pids s) k = Some a"
      by (auto simp: update_conv' split: if_splits)
    then show "a < length (heap_of ?s) \<and> pid (heap_of ?s ! a) = k"
    proof cases
      case new
      then show ?thesis using new_addr by blast
    next
      case old
      from mi[unfolded map_inv_def, rule_format, OF old(2)]
      have "a < ?n" "pid (?h ! a) = k" by blast+
      then show ?thesis using old_addr[of a] by metis
    qed
  qed
  have 3: "\<forall>r. rootItem ?s = Some r \<longrightarrow> r < length (heap_of ?s) \<and> pid (heap_of ?s ! r) = rootPid"
  proof (intro allI impI)
    fix r' assume "rootItem ?s = Some r'"
    then have "(if p = rootPid then Some ?n else rootItem s) = Some r'"
      by (simp only: eqs(3))
    then consider (new) "p = rootPid" "r' = ?n" | (old) "rootItem s = Some r'"
      by (cases "p = rootPid") auto
    then show "r' < length (heap_of ?s) \<and> pid (heap_of ?s ! r') = rootPid"
    proof cases
      case new
      then show ?thesis using new_addr by blast
    next
      case old
      from ri[rule_format, OF old] have "r' < ?n" "pid (?h ! r') = rootPid" by blast+
      then show ?thesis using old_addr[of r'] by metis
    qed
  qed
  from 1 hp 3 show ?thesis by (simp add: closure_inv_def)
qed

lemma posix_line_cases:
  "(line_record l = None \<and> posix_line r l s = s)
   \<or> (\<exists>p pp c ld mm. line_record l = Some (p, pp) \<and> posix_line r l s = addToTree r s p pp c ld mm)"
  by (auto simp: posix_line_def line_record_def split: option.splits)

lemma posix_lines_inv:
  assumes "closure_inv R rootPid s" "posix_records lines \<subseteq> R"
  shows "closure_inv R rootPid (posix_lines rootPid lines s)"
  using assms
proof (induction lines arbitrary: s)
  case Nil
  then show ?case by simp
next
  case (Cons l lines)
  have sub: "posix_records lines \<subseteq> R" using Cons.prems(2) by (auto simp: posix_records_def)
  have "closure_inv R rootPid (posix_line rootPid l s)"
  proof -
    consider "posix_line rootPid l s = s"
      | p pp c ld mm where "line_record l = Some (p, pp)" "posix_line rootPid l s = addToTree rootPid s p pp c ld mm"
      using posix_line_cases[of l rootPid s] by blast
    then show ?thesis
    proof cases
      case 1
      then show ?thesis using Cons.prems(1) by simp
    next
      case 2
      from 2(1) Cons.prems(2) have "(p, pp) \<in> R" by (auto simp: posix_records_def)
      with Cons.prems(1) show ?thesis unfolding 2(2) by (rule addToTree_inv)
    qed
  qed
  then show ?case using Cons.IH sub by simp
qed

lemma init_closure_inv: "closure_inv R rootPid init_closure"
  by (simp add: closure_inv_def init_closure_def map_inv_def wf_heap_def)

lemma seen_heap_alloc:
  assumes "wf_heap R h" "seen_heap seen h" "children it = None" "pid it = p"
  shows "seen_heap (insert p seen) (h @ [it])"
  unfolding seen_heap_def
proof (intro allI impI)
  fix x assume "x < length (h @ [it])"
  then consider "x < length h" | "x = length h" by fastforce
  then show "pid ((h @ [it]) ! x) \<in> insert p seen
      \<and> distinct (map (\<lambda>c. pid ((h @ [it]) ! c)) (child_list ((h @ [it]) ! x)))"
  proof cases
    case 1
    have hx: "(h @ [it]) ! x = h ! x" using 1 by (simp add: nth_append)
    from assms(1) 1 have r: "\<forall>c\<in>set (child_list (h ! x)). c < length h"
      by (auto simp: wf_heap_def)
    have meq: "map (\<lambda>c. pid ((h @ [it]) ! c)) (child_list (h ! x))
        = map (\<lambda>c. pid (h ! c)) (child_list (h ! x))"
      using r by (intro map_cong) (simp_all add: nth_append)
    show ?thesis unfolding hx meq using assms(2) 1 by (simp add: seen_heap_def)
  next
    case 2
    then show ?thesis using assms(3,4) by (simp add: child_list_def)
  qed
qed

lemma seen_heap_push:
  assumes "wf_heap R h" "seen_heap seen h" "pa < length h" "a < length h"
    and "\<forall>c\<in>set (child_list (h ! pa)). pid (h ! c) \<noteq> pid (h ! a)"
  shows "seen_heap seen (push_sorted h pa a)"
  unfolding seen_heap_def
proof (intro allI impI)
  let ?h = "push_sorted h pa a"
  fix x assume "x < length ?h"
  then have x: "x < length h" by simp
  with assms(2) have s: "pid (h ! x) \<in> seen"
    "distinct (map (\<lambda>c. pid (h ! c)) (child_list (h ! x)))"
    by (auto simp: seen_heap_def)
  have "distinct (map (\<lambda>c. pid (h ! c)) (child_list (?h ! x)))"
  proof (cases "x = pa")
    case False
    then show ?thesis using s(2) by (simp add: push_sorted_child_list)
  next
    case True
    have "distinct (map (\<lambda>c. pid (h ! c)) (child_list (h ! pa) @ [a]))"
      using s(2) assms(5) True by auto
    then show ?thesis using True assms(3)
      by (simp add: push_sorted_child_list distinct_map_sort_by_pid del: map_append)
  qed
  then show "pid (?h ! x) \<in> seen \<and> distinct (map (\<lambda>c. pid (?h ! c)) (child_list (?h ! x)))"
    using s(1) by simp
qed

lemma seen_heap_mono: "seen_heap A h \<Longrightarrow> A \<subseteq> B \<Longrightarrow> seen_heap B h"
  by (auto simp: seen_heap_def)

lemma addToTree_seen:
  assumes inv: "closure_inv R rootPid s" and sh: "seen_heap seen (heap_of s)" and fresh: "p \<notin> seen"
  shows "seen_heap (insert p seen) (heap_of (addToTree rootPid s p pp c ld mm))"
proof (cases "p = rootPid \<or> map_of (map_of_pids s) pp \<noteq> None")
  case False
  then have "addToTree rootPid s p pp c ld mm = s" by (simp add: addToTree_skip)
  then show ?thesis using sh by (auto intro: seen_heap_mono)
next
  case True
  let ?h = "heap_of s"
  let ?n = "length ?h"
  let ?H = "?h @ [new_item p pp c ld mm]"
  note eqs = addToTree_add[OF True, of c ld mm]
  from inv have mi: "map_inv (map_of_pids s) ?h" and wf: "wf_heap R ?h"
    by (simp_all add: closure_inv_def)
  have shH: "seen_heap (insert p seen) ?H"
    using wf sh by (rule seen_heap_alloc) simp_all
  show ?thesis
  proof (cases "map_of (map_of_pids s) pp")
    case None
    then show ?thesis using eqs(1) shH by simp
  next
    case (Some pa)
    with mi have pa: "pa < ?n" by (auto simp: map_inv_def)
    have wfH: "wf_heap (insert (p, pp) R) ?H"
    proof (rule wf_heap_alloc)
      show "wf_heap (insert (p, pp) R) ?h" using wf by (auto simp: wf_heap_def)
    qed simp_all
    have cl: "child_list (?H ! pa) = child_list (?h ! pa)" using pa by (simp add: nth_append)
    have ne: "\<forall>c\<in>set (child_list (?H ! pa)). pid (?H ! c) \<noteq> pid (?H ! ?n)"
    proof
      fix c assume "c \<in> set (child_list (?H ! pa))"
      then have "c \<in> set (child_list (?h ! pa))" by (simp only: cl)
      with wf pa have c: "c < ?n" by (auto simp: wf_heap_def)
      with sh have "pid (?h ! c) \<in> seen" by (simp add: seen_heap_def)
      with fresh c show "pid (?H ! c) \<noteq> pid (?H ! ?n)" by (auto simp: nth_append)
    qed
    have "seen_heap (insert p seen) (push_sorted ?H pa ?n)"
      using wfH shH _ _ ne by (rule seen_heap_push) (use pa in simp_all)
    then show ?thesis using eqs(1) Some by simp
  qed
qed

lemma line_pids_Cons:
  "line_pids (l # ls) = (case line_record l of None \<Rightarrow> line_pids ls | Some (p, pp) \<Rightarrow> p # line_pids ls)"
  by (simp add: line_pids_def List.map_filter_simps split: option.split)

lemma posix_lines_seen:
  assumes "closure_inv R rootPid s" "posix_records lines \<subseteq> R" "seen_heap seen (heap_of s)"
    "distinct (line_pids lines)" "set (line_pids lines) \<inter> seen = {}"
  shows "\<exists>seen'. seen_heap seen' (heap_of (posix_lines rootPid lines s))"
  using assms
proof (induction lines arbitrary: s seen)
  case Nil
  then show ?case by auto
next
  case (Cons l lines)
  have sub: "posix_records lines \<subseteq> R" using Cons.prems(2) by (auto simp: posix_records_def)
  consider "line_record l = None" "posix_line rootPid l s = s"
    | p pp c ld mm where "line_record l = Some (p, pp)" "posix_line rootPid l s = addToTree rootPid s p pp c ld mm"
    using posix_line_cases[of l rootPid s] by auto
  then show ?case
  proof cases
    case 1
    then have "line_pids (l # lines) = line_pids lines" by (simp add: line_pids_Cons)
    with Cons.prems have "\<exists>seen'. seen_heap seen' (heap_of (posix_lines rootPid lines s))"
      using sub by (intro Cons.IH[of s seen]) simp_all
    then show ?thesis using 1 by simp
  next
    case 2
    let ?s = "addToTree rootPid s p pp c ld mm"
    from 2(1) have lp: "line_pids (l # lines) = p # line_pids lines" by (simp add: line_pids_Cons)
    from 2(1) Cons.prems(2) have "(p, pp) \<in> R" by (auto simp: posix_records_def)
    with Cons.prems(1) have i: "closure_inv R rootPid ?s" by (rule addToTree_inv)
    from Cons.prems(5) lp have "p \<notin> seen" by auto
    with Cons.prems(1,3) have sh: "seen_heap (insert p seen) (heap_of ?s)" by (rule addToTree_seen)
    from Cons.prems(4,5) lp have d: "distinct (line_pids lines)" "set (line_pids lines) \<inter> insert p seen = {}"
      by auto
    from Cons.IH[OF i sub sh d] show ?thesis using 2(2) by simp
  qed
qed

lemma strict_heapI: "wf_heap R h \<Longrightarrow> seen_heap seen h \<Longrightarrow> strict_heap h"
  by (simp add: wf_heap_def seen_heap_def strict_heap_def strict_sorted_iff)

lemma reach_descends:
  assumes "wf_heap R h" "r < length h" "pid (h ! r) = rootPid" "reach h r a"
  shows "a < length h \<and> descends R rootPid (pid (h ! a))"
  using assms(4)
proof (induction rule: reach.induct)
  case reach_root
  show ?case using assms(2,3) by (auto intro: descends_root)
next
  case (reach_child p a)
  then have p: "p < length h" "descends R rootPid (pid (h ! p))" by simp_all
  with assms(1) reach_child.hyps(2) have a: "a < length h" "ppid (h ! a) = pid (h ! p)"
    by (auto simp: wf_heap_def)
  with assms(1) have "(pid (h ! a), pid (h ! p)) \<in> R" by (auto simp: wf_heap_def)
  then have "descends R rootPid (pid (h ! a))" using p(2) by (rule descends_step)
  with a show ?case by simp
qed

lemma item_record_simps [simp]:
  "pid (item_record it) = processId it" "ppid (item_record it) = parentProcessId it"
  "children (item_record it) = None"
  by (simp_all add: item_record_def Let_def)

lemma map_inv_alloc:
  assumes "map_inv m h" "pid it = k"
  shows "map_inv (AList.update k (length h) m) (h @ [it])"
  unfolding map_inv_def
proof (intro allI impI)
  fix k' a assume "map_of (AList.update k (length h) m) k' = Some a"
  then consider (new) "k' = k" "a = length h" | (old) "k' \<noteq> k" "map_of m k' = Some a"
    by (auto simp: update_conv' split: if_splits)
  then show "a < length (h @ [it]) \<and> pid ((h @ [it]) ! a) = k'"
  proof cases
    case new
    then show ?thesis using assms(2) by simp
  next
    case old
    from assms(1)[unfolded map_inv_def, rule_format, OF old(2)]
    show ?thesis by (simp add: nth_append)
  qed
qed

lemma fresh_heap_alloc:
  assumes "fresh_heap R h" "children it = None" "(pid it, ppid it) \<in> R"
  shows "fresh_heap R (h @ [it])"
  unfolding fresh_heap_def
proof (intro allI impI)
  fix x assume "x < length (h @ [it])"
  then consider "x < length h" | "x = length h" by fastforce
  then show "children ((h @ [it]) ! x) = None \<and> (pid ((h @ [it]) ! x), ppid ((h @ [it]) ! x)) \<in> R"
  proof cases
    case 1
    then show ?thesis using assms(1) by (simp add: nth_append fresh_heap_def)
  next
    case 2
    then show ?thesis using assms(2,3) by simp
  qed
qed

lemma collect_props:
  assumes "collect its h m = (h', m')" "map_inv m h" "distinct (map fst m)" "fresh_heap R h"
    and "\<forall>it\<in>set its. type it = processInfo \<longrightarrow> (processId it, parentProcessId it) \<in> R"
  shows "map_inv m' h' \<and> distinct (map fst m') \<and> fresh_heap R h'"
  using assms
proof (induction its arbitrary: h m)
  case Nil
  then show ?case by simp
next
  case (Cons it its)
  show ?case
  proof (cases "type it = processInfo")
    case False
    with Cons.prems have "collect its h m = (h', m')" by simp
    then show ?thesis using Cons.prems(2-5) by (intro Cons.IH) simp_all
  next
    case True
    let ?h = "h @ [item_record it]"
    let ?m = "AList.update (processId it) (length h) m"
    from True Cons.prems(1) have c: "collect its ?h ?m = (h', m')" by simp
    have 1: "map_inv ?m ?h" using Cons.prems(2) by (rule map_inv_alloc) simp
    have 2: "distinct (map fst ?m)" using Cons.prems(3) by (rule distinct_update)
    have 3: "fresh_heap R ?h" using Cons.prems(4)
      by (rule fresh_heap_alloc) (use True Cons.prems(5) in simp_all)
    from c 1 2 3 show ?thesis using Cons.prems(5) by (intro Cons.IH) simp_all
  qed
qed

lemma link_pass_Cons: "link_pass ((k, a) # es) m h = link_pass es m (link_step m h a)"
  by (simp add: link_step_def)

lemma link_step_length [simp]: "length (link_step m h a) = length h"
  by (simp add: link_step_def split: option.split)

lemma link_step_pid [simp]: "pid (link_step m h a ! c) = pid (h ! c)"
  by (simp add: link_step_def split: option.split)

lemma link_step_ppid [simp]: "ppid (link_step m h a ! c) = ppid (h ! c)"
  by (simp add: link_step_def split: option.split)

lemma link_step_children:
  "x < length h \<Longrightarrow> children (link_step m h a ! x) =
     (if map_of m (ppid (h ! a)) = Some x then Some (child_list (h ! x) @ [a]) else children (h ! x))"
  by (auto simp: link_step_def upd_children_children split: option.split)

lemma linked_link_step [simp]: "linked m (link_step m h a) es x = linked m h es x"
  by (simp add: linked_def)

lemma linked_Cons:
  "linked m h ((k, a) # es) x =
     (if map_of m (ppid (h ! a)) = Some x then a # linked m h es x else linked m h es x)"
  by (simp add: linked_def)

lemma link_pass_length [simp]: "length (link_pass es m h) = length h"
  by (induction es arbitrary: h) (auto simp: link_pass_Cons simp del: link_pass.simps(2))

lemma link_pass_pid [simp]: "pid (link_pass es m h ! c) = pid (h ! c)"
  by (induction es arbitrary: h) (auto simp: link_pass_Cons simp del: link_pass.simps(2))

lemma link_pass_ppid [simp]: "ppid (link_pass es m h ! c) = ppid (h ! c)"
  by (induction es arbitrary: h) (auto simp: link_pass_Cons simp del: link_pass.simps(2))

lemma link_pass_children:
  "x < length h \<Longrightarrow> children (link_pass es m h ! x) =
     (if linked m h es x = [] then children (h ! x)
      else Some (child_list (h ! x) @ linked m h es x))"
proof (induction es arbitrary: h)
  case Nil
  then show ?case by (simp add: linked_def)
next
  case (Cons e es)
  obtain k a where e: "e = (k, a)" by (cases e)
  have x: "x < length (link_step m h a)" using Cons.prems by simp
  show ?case
    unfolding e link_pass_Cons Cons.IH[OF x]
    using Cons.prems
    by (simp add: linked_Cons link_step_children child_list_def)
qed

lemma sort_pass_Cons: "sort_pass ((k, a) # es) h = sort_pass es (sort_step h a)"
  by (simp add: sort_step_def)

lemma sort_step_length [simp]: "length (sort_step h a) = length h"
  by (simp add: sort_step_def split: option.split)

lemma sort_step_pid [simp]: "pid (sort_step h a ! c) = pid (h ! c)"
  by (simp add: sort_step_def split: option.split)

lemma sort_step_ppid [simp]: "ppid (sort_step h a ! c) = ppid (h ! c)"
  by (simp add: sort_step_def split: option.split)

lemma sort_by_pid_sort_step [simp]: "sort_by_pid (sort_step h a) = sort_by_pid h"
  by (simp add: sort_by_pid_def fun_eq_iff)

lemma sort_step_children:
  "x < length h \<Longrightarrow> children (sort_step h a ! x) =
     (if x = a then map_option (sort_by_pid h) (children (h ! x)) else children (h ! x))"
  by (auto simp: sort_step_def upd_children_children split: option.split)

lemma sort_by_pid_idem [simp]: "sort_by_pid h (sort_by_pid h cs) = sort_by_pid h cs"
  by (simp add: sort_by_pid_def sort_key_id_if_sorted)

lemma sort_pass_length [simp]: "length (sort_pass es h) = length h"
  by (induction es arbitrary: h) (auto simp: sort_pass_Cons simp del: sort_pass.simps(2))

lemma sort_pass_pid [simp]: "pid (sort_pass es h ! c) = pid (h ! c)"
  by (induction es arbitrary: h) (auto simp: sort_pass_Cons simp del: sort_pass.simps(2))

lemma sort_pass_ppid [simp]: "ppid (sort_pass es h ! c) = ppid (h ! c)"
  by (induction es arbitrary: h) (auto simp: sort_pass_Cons simp del: sort_pass.simps(2))

lemma sort_pass_children:
  "x < length h \<Longrightarrow> children (sort_pass es h ! x) =
     (if x \<in> snd ` set es then map_option (sort_by_pid h) (children (h ! x)) else children (h ! x))"
proof (induction es arbitrary: h)
  case Nil
  then show ?case by simp
next
  case (Cons e es)
  obtain k a where e: "e = (k, a)" by (cases e)
  have x: "x < length (sort_step h a)" using Cons.prems by simp
  show ?case
    unfolding e sort_pass_Cons Cons.IH[OF x]
    using Cons.prems
    by (auto simp: sort_step_children option.map_comp comp_def)
qed

lemma sort_by_pid_cong: "(\<And>c. pid (h' ! c) = pid (h ! c)) \<Longrightarrow> sort_by_pid h' = sort_by_pid h"
  by (simp add: sort_by_pid_def fun_eq_iff)

lemma linked_in_map:
  assumes "c \<in> set (linked m h es x)"
  shows "\<exists>k. (k, c) \<in> set es \<and> map_of m (ppid (h ! c)) = Some x"
  using assms by (auto simp: linked_def)

lemma windows_children:
  assumes "fresh_heap R h0" "x < length h0"
  shows "children (sort_pass m (link_pass m m h0) ! x) =
     (if linked m h0 m x = [] then None else Some (sort_by_pid h0 (linked m h0 m x)))"
proof -
  let ?h1 = "link_pass m m h0"
  have c0: "children (h0 ! x) = None" "child_list (h0 ! x) = []"
    using assms by (simp_all add: fresh_heap_def child_list_def)
  have c1: "children (?h1 ! x) = (if linked m h0 m x = [] then None else Some (linked m h0 m x))"
    using assms(2) by (simp add: link_pass_children c0)
  have s: "sort_by_pid ?h1 = sort_by_pid h0" by (rule sort_by_pid_cong) simp
  have in_m: "x \<in> snd ` set m" if "linked m h0 m x \<noteq> []"
  proof -
    from that obtain c where "c \<in> set (linked m h0 m x)" by (cases "linked m h0 m x") auto
    then obtain k where "map_of m (ppid (h0 ! c)) = Some x" using linked_in_map by blast
    then have "(ppid (h0 ! c), x) \<in> set m" by (rule map_of_SomeD)
    then show ?thesis by force
  qed
  have x1: "x < length ?h1" using assms(2) by simp
  show ?thesis
    unfolding sort_pass_children[OF x1] c1 s using in_m by auto
qed

lemma windows_heap:
  assumes c: "collect items [] [] = (h0, m)"
  defines "h \<equiv> sort_pass m (link_pass m m h0)"
  shows "map_inv m h" "wf_heap (win_records items) h" "strict_heap h"
    "\<And>a. a \<in> snd ` set m \<Longrightarrow> ppid (h ! a) = pid (h ! a) \<Longrightarrow> a \<in> set (child_list (h ! a))"
proof -
  let ?R = "win_records items"
  have "map_inv m h0 \<and> distinct (map fst m) \<and> fresh_heap ?R h0"
    using c by (rule collect_props) (auto simp: map_inv_def fresh_heap_def win_records_def)
  then have mi: "map_inv m h0" and dm: "distinct (map fst m)" and fh: "fresh_heap ?R h0" by blast+
  have len: "length h = length h0" by (simp add: h_def)
  have pid_h: "\<And>c. pid (h ! c) = pid (h0 ! c)" "\<And>c. ppid (h ! c) = ppid (h0 ! c)"
    by (simp_all add: h_def)
  have entry: "a < length h0 \<and> pid (h0 ! a) = k" if "(k, a) \<in> set m" for k a
  proof -
    from dm that have "map_of m k = Some a" by simp
    with mi show ?thesis by (simp add: map_inv_def)
  qed
  have ch: "children (h ! x) = (if linked m h0 m x = [] then None else Some (sort_by_pid h0 (linked m h0 m x)))"
    if "x < length h0" for x
    unfolding h_def using fh that by (rule windows_children)
  have cl: "set (child_list (h ! x)) = set (linked m h0 m x)" if "x < length h0" for x
    by (simp add: child_list_def ch[OF that])
  show "map_inv m h" using mi by (simp add: map_inv_def len pid_h)
  have child: "c < length h0 \<and> ppid (h0 ! c) = pid (h0 ! x)"
    if "x < length h0" "c \<in> set (child_list (h ! x))" for x c
  proof -
    from that have "c \<in> set (linked m h0 m x)" by (simp add: cl)
    then obtain k where k: "(k, c) \<in> set m" "map_of m (ppid (h0 ! c)) = Some x"
      using linked_in_map by blast
    from k(2) mi have "pid (h0 ! x) = ppid (h0 ! c)" by (simp add: map_inv_def)
    with entry[OF k(1)] show ?thesis by simp
  qed
  have pids_linked: "map (\<lambda>c. pid (h0 ! c)) (linked m h0 m x)
      = map fst (filter (\<lambda>(k, a). map_of m (ppid (h0 ! a)) = Some x) m)" for x
    unfolding linked_def map_map by (rule map_cong) (use entry in auto)
  have dl: "distinct (map (\<lambda>c. pid (h0 ! c)) (linked m h0 m x))" for x
    unfolding pids_linked using dm by (rule distinct_map_filter)
  have sorted_x: "sorted (map (\<lambda>c. pid (h0 ! c)) (child_list (h ! x)))
      \<and> distinct (map (\<lambda>c. pid (h0 ! c)) (child_list (h ! x)))" if "x < length h0" for x
    using dl[of x] by (simp add: child_list_def ch[OF that] sorted_sort_by_pid distinct_map_sort_by_pid)
  show "wf_heap ?R h"
    unfolding wf_heap_def len pid_h
  proof (intro allI impI conjI)
    fix x assume x: "x < length h0"
    show "(pid (h0 ! x), ppid (h0 ! x)) \<in> ?R" using fh x by (simp add: fresh_heap_def)
    show "children (h ! x) \<noteq> Some []" by (simp add: ch[OF x])
    show "\<forall>c\<in>set (child_list (h ! x)). c < length h0 \<and> ppid (h0 ! c) = pid (h0 ! x)"
      using child[OF x] by blast
    show "sorted (map (\<lambda>c. pid (h0 ! c)) (child_list (h ! x)))" using sorted_x[OF x] by blast
  qed
  show "strict_heap h"
    unfolding strict_heap_def len pid_h strict_sorted_iff using sorted_x by blast
  show "a \<in> set (child_list (h ! a))" if "a \<in> snd ` set m" "ppid (h ! a) = pid (h ! a)" for a
  proof -
    from that(1) obtain k where k: "(k, a) \<in> set m" by auto
    then have a: "a < length h0" "pid (h0 ! a) = k" using entry by blast+
    from dm k have "map_of m k = Some a" by simp
    with that(2) a have "map_of m (ppid (h0 ! a)) = Some a" by (simp add: pid_h)
    with k have "a \<in> set (linked m h0 m a)" by (force simp: linked_def)
    then show ?thesis using a(1) by (simp add: cl)
  qed
qed

lemma those_None: "None \<in> set xs \<Longrightarrow> those xs = None"
  by (induction xs) (auto split: option.split)

lemma tree_of_self_child:
  assumes "a \<in> set (child_list (h ! a))"
  shows "tree_of n h a = None"
proof (induction n)
  case 0
  show ?case by simp
next
  case (Suc n)
  from assms obtain cs where cs: "children (h ! a) = Some cs" "a \<in> set cs"
    by (cases "children (h ! a)") (auto simp: child_list_def)
  with Suc have "None \<in> set (map (tree_of n h) cs)" by force
  then have "those (map (tree_of n h) cs) = None" by (rule those_None)
  with cs(1) show ?case by simp
qed

lemma tree_of_child_None:
  assumes "c \<in> set (child_list (h ! p))" "\<forall>n. tree_of n h c = None"
  shows "tree_of n h p = None"
proof (cases n)
  case 0
  then show ?thesis by simp
next
  case (Suc k)
  from assms(1) obtain cs where cs: "children (h ! p) = Some cs" "c \<in> set cs"
    by (cases "children (h ! p)") (auto simp: child_list_def)
  from assms(2) have "tree_of k h c = None" by blast
  with cs(2) have "None \<in> set (map (tree_of k h) cs)" by (metis image_eqI set_map)
  then have "those (map (tree_of k h) cs) = None" by (rule those_None)
  with cs(1) Suc show ?thesis by simp
qed

lemma reach_tree_of_None:
  assumes "reach h r a" "\<forall>n. tree_of n h a = None"
  shows "\<forall>n. tree_of n h r = None"
  using assms
proof (induction rule: reach.induct)
  case reach_root
  then show ?case by simp
next
  case (reach_child p a)
  have "\<forall>n. tree_of n h p = None"
    using reach_child.hyps(2) reach_child.prems by (blast intro: tree_of_child_None)
  then show ?case by (rule reach_child.IH)
qed

lemma collect_dom:
  "dom (map_of (snd (collect its h m))) =
     dom (map_of m) \<union> {processId it | it. it \<in> set its \<and> type it = processInfo}"
proof (induction its arbitrary: h m)
  case Nil
  show ?case by simp
next
  case (Cons it its)
  show ?case by (cases "type it = processInfo") (auto simp: Cons.IH update_conv' split: if_splits)
qed

lemma posix_lines_no_root:
  assumes "rootPid \<notin> fst ` posix_records lines" "map_of_pids s = []"
  shows "posix_lines rootPid lines s = s"
  using assms
proof (induction lines)
  case Nil
  show ?case by simp
next
  case (Cons l lines)
  have sub: "rootPid \<notin> fst ` posix_records lines"
    using Cons.prems(1) by (auto simp: posix_records_def)
  have "posix_line rootPid l s = s"
  proof -
    consider "posix_line rootPid l s = s"
      | p pp c ld mm where "line_record l = Some (p, pp)"
          "posix_line rootPid l s = addToTree rootPid s p pp c ld mm"
      using posix_line_cases[of l rootPid s] by auto
    then show ?thesis
    proof cases
      case 1
      then show ?thesis .
    next
      case 2
      from 2(1) have "(p, pp) \<in> posix_records (l # lines)" by (auto simp: posix_records_def)
      with Cons.prems(1) have "p \<noteq> rootPid" by force
      then show ?thesis unfolding 2(2) using Cons.prems(2) by (intro addToTree_skip) simp_all
    qed
  qed
  then show ?case using Cons.IH[OF sub Cons.prems(2)] by simp
qed

section \<open>The returned structure: the claims\<close>

lemma windows_resolved:
  assumes "windows_listProcesses rootPid stderr parsed = Resolved ro h"
  shows "\<exists>items h0 m r. stderr = [] \<and> parsed = Some items
    \<and> collect items [] [] = (h0, m) \<and> map_of m rootPid = Some r \<and> ro = Some r
    \<and> h = sort_pass m (link_pass m m h0)"
proof -
  from assms have e: "stderr = []" by (auto simp: windows_listProcesses_def split: if_splits)
  with assms obtain items where i: "parsed = Some items"
    by (cases parsed) (auto simp: windows_listProcesses_def)
  obtain h0 m where c: "collect items [] [] = (h0, m)" by (cases "collect items [] []")
  with assms e i obtain r where r: "map_of m rootPid = Some r"
    by (cases "map_of m rootPid") (auto simp: windows_listProcesses_def)
  with assms e i c have "ro = Some r" "h = sort_pass m (link_pass m m h0)"
    by (auto simp: windows_listProcesses_def)
  with e i c r show ?thesis by blast
qed

lemma posix_resolved:
  assumes "posix_listProcesses rootPid err stdout stderr = Resolved ro h"
  shows "\<not> err" "stderr = []"
    "ro = rootItem (posix_lines rootPid (split_on (CHR 0x0A) stdout) init_closure)"
    "h = heap_of (posix_lines rootPid (split_on (CHR 0x0A) stdout) init_closure)"
  using assms by (auto simp: posix_listProcesses_def Let_def split: if_splits)

lemma posix_final_inv:
  "closure_inv (posix_records lines) rootPid (posix_lines rootPid lines init_closure)"
  by (rule posix_lines_inv) (simp_all add: init_closure_inv)

lemma posix_final_seen:
  assumes "distinct (line_pids lines)"
  shows "\<exists>seen. seen_heap seen (heap_of (posix_lines rootPid lines init_closure))"
proof (rule posix_lines_seen)
  show "closure_inv (posix_records lines) rootPid init_closure" by (rule init_closure_inv)
  show "posix_records lines \<subseteq> posix_records lines" by simp
  show "seen_heap {} (heap_of init_closure)" by (simp add: seen_heap_def init_closure_def)
  show "distinct (line_pids lines)" by (rule assms)
  show "set (line_pids lines) \<inter> {} = {}" by simp
qed

lemma windows_root:
  assumes "windows_listProcesses rootPid stderr parsed = Resolved (Some r) h"
  shows "r < length h \<and> pid (h ! r) = rootPid"
proof -
  from windows_resolved[OF assms] obtain items h0 m r' where c: "collect items [] [] = (h0, m)"
    and r: "map_of m rootPid = Some r'" "Some r = Some r'"
    and h: "h = sort_pass m (link_pass m m h0)"
    by blast
  from windows_heap(1)[OF c] h have "map_inv m h" by simp
  with r show ?thesis by (simp add: map_inv_def)
qed

lemma posix_root:
  assumes "posix_listProcesses rootPid err stdout stderr = Resolved (Some r) h"
  shows "r < length h \<and> pid (h ! r) = rootPid"
proof -
  let ?s = "posix_lines rootPid (split_on (CHR 0x0A) stdout) init_closure"
  from posix_resolved(3,4)[OF assms] have "rootItem ?s = Some r" "h = heap_of ?s" by simp_all
  with posix_final_inv[of "split_on (CHR 0x0A) stdout" rootPid] show ?thesis
    by (simp add: closure_inv_def)
qed

text \<open>
  C2. On either path, when the call resolves with a record, that record is allocated and
  its pid is the requested root pid.
\<close>

theorem root_pid_requested:
  "(windows_listProcesses rootPid stderr parsed = Resolved (Some r) h
      \<longrightarrow> r < length h \<and> pid (h ! r) = rootPid)
   \<and> (posix_listProcesses rootPid err stdout stderr' = Resolved (Some r') h'
      \<longrightarrow> r' < length h' \<and> pid (h' ! r') = rootPid)"
  using windows_root posix_root by blast

theorem root_pid_requested_witness:
  "(case windows_listProcesses 2 [] (Some [snapshot 1 0, snapshot 2 1, snapshot 3 2]) of
      Resolved (Some r) h \<Rightarrow> r < length h \<and> pid (h ! r) = 2 | _ \<Rightarrow> False)
   \<and> (case posix_listProcesses 2 False (''1 0 0.0 0.0 a'' @ [CHR 0x0A] @ ''2 1 0.0 0.0 b'') [] of
      Resolved (Some r) h \<Rightarrow> r < length h \<and> pid (h ! r) = 2 | _ \<Rightarrow> False)"
proof -
  let ?w = "windows_listProcesses 2 [] (Some [snapshot 1 0, snapshot 2 1, snapshot 3 2])"
  let ?p = "posix_listProcesses 2 False (''1 0 0.0 0.0 a'' @ [CHR 0x0A] @ ''2 1 0.0 0.0 b'') []"
  have "case ?w of Resolved (Some r) h \<Rightarrow> True | _ \<Rightarrow> False" by code_simp
  then obtain r h where w: "?w = Resolved (Some r) h"
    by (auto split: promise.splits option.splits)
  have "case ?p of Resolved (Some r) h \<Rightarrow> True | _ \<Rightarrow> False" by code_simp
  then obtain r' h' where p: "?p = Resolved (Some r') h'"
    by (auto split: promise.splits option.splits)
  from root_pid_requested[of 2 "[]" "Some [snapshot 1 0, snapshot 2 1, snapshot 3 2]" r h
      False "''1 0 0.0 0.0 a'' @ [CHR 0x0A] @ ''2 1 0.0 0.0 b''" "[]" r' h'] w p
  have "r < length h \<and> pid (h ! r) = 2" "r' < length h' \<and> pid (h' ! r') = 2" by blast+
  then show ?thesis by (simp only: w p promise.case option.case)
qed

lemma windows_wf:
  assumes "windows_listProcesses rootPid stderr (Some items) = Resolved (Some r) h"
  shows "wf_heap (win_records items) h" "strict_heap h" "r < length h" "pid (h ! r) = rootPid"
    "\<And>a. a \<in> snd ` set (snd (collect items [] [])) \<Longrightarrow> ppid (h ! a) = pid (h ! a)
        \<Longrightarrow> a \<in> set (child_list (h ! a))"
proof -
  from windows_resolved[OF assms] obtain h0 m where c: "collect items [] [] = (h0, m)"
    and h: "h = sort_pass m (link_pass m m h0)"
    by auto
  show "wf_heap (win_records items) h" "strict_heap h"
    using windows_heap(2,3)[OF c] h by simp_all
  show "r < length h" "pid (h ! r) = rootPid" using windows_root[OF assms] by simp_all
  show "a \<in> set (child_list (h ! a))"
    if "a \<in> snd ` set (snd (collect items [] []))" "ppid (h ! a) = pid (h ! a)" for a
    using windows_heap(4)[OF c, of a] that h c by simp
qed

lemma posix_wf:
  assumes "posix_listProcesses rootPid err stdout stderr = Resolved (Some r) h"
  shows "wf_heap (posix_records (split_on (CHR 0x0A) stdout)) h" "r < length h" "pid (h ! r) = rootPid"
    "distinct (line_pids (split_on (CHR 0x0A) stdout)) \<Longrightarrow> strict_heap h"
proof -
  let ?lines = "split_on (CHR 0x0A) stdout"
  let ?s = "posix_lines rootPid ?lines init_closure"
  from posix_resolved(4)[OF assms] have h: "h = heap_of ?s" .
  show wf: "wf_heap (posix_records ?lines) h"
    using posix_final_inv[of ?lines rootPid] h by (simp add: closure_inv_def)
  show "r < length h" "pid (h ! r) = rootPid" using posix_root[OF assms] by simp_all
  show "strict_heap h" if "distinct (line_pids ?lines)"
  proof -
    from posix_final_seen[OF that, of rootPid] h obtain seen where "seen_heap seen h" by auto
    with wf show ?thesis by (rule strict_heapI)
  qed
qed

lemma reach_in_range:
  assumes "wf_heap R h" "r < length h" "reach h r a"
  shows "a < length h"
  using reach_descends[OF assms(1,2) refl assms(3)] by simp

lemma present_iff_nonempty:
  assumes "wf_heap R h" "a < length h"
  shows "(children (h ! a) \<noteq> None) = (child_list (h ! a) \<noteq> [])"
proof -
  from assms have "children (h ! a) \<noteq> Some []" by (simp add: wf_heap_def)
  then show ?thesis by (cases "children (h ! a)") (simp_all add: child_list_def)
qed

text \<open>
  C3. In every record of the returned structure (every record reached from the root)
  the \<^verbatim>\<open>children\<close> field is present exactly when the record has a child, and the pids of
  the children are strictly ascending. On Windows this holds for every input. On POSIX
  the children are ascending for every input, and strictly ascending when no two matching
  lines of the listing carry the same pid, as in a listing of \<^verbatim>\<open>ps\<close> (two lines with one pid
  and one parent would give that parent two children of equal pid).
\<close>

theorem children_present_sorted:
  "(windows_listProcesses rootPid stderr (Some items) = Resolved (Some r) h \<and> reach h r a
      \<longrightarrow> (children (h ! a) \<noteq> None) = (child_list (h ! a) \<noteq> [])
        \<and> sorted_wrt (<) (map (\<lambda>c. pid (h ! c)) (child_list (h ! a))))
   \<and> (posix_listProcesses rootPid err stdout stderr' = Resolved (Some r') h' \<and> reach h' r' a'
      \<longrightarrow> (children (h' ! a') \<noteq> None) = (child_list (h' ! a') \<noteq> [])
        \<and> sorted (map (\<lambda>c. pid (h' ! c)) (child_list (h' ! a')))
        \<and> (distinct (line_pids (split_on (CHR 0x0A) stdout))
            \<longrightarrow> sorted_wrt (<) (map (\<lambda>c. pid (h' ! c)) (child_list (h' ! a')))))"
proof (intro conjI impI)
  assume w: "windows_listProcesses rootPid stderr (Some items) = Resolved (Some r) h \<and> reach h r a"
  then have wf: "wf_heap (win_records items) h" and st: "strict_heap h" and r: "r < length h"
    using windows_wf by blast+
  from wf r w have a: "a < length h" by (blast intro: reach_in_range)
  show "(children (h ! a) \<noteq> None) = (child_list (h ! a) \<noteq> [])"
    using wf a by (rule present_iff_nonempty)
  show "sorted_wrt (<) (map (\<lambda>c. pid (h ! c)) (child_list (h ! a)))"
    using st a by (simp add: strict_heap_def)
next
  assume p: "posix_listProcesses rootPid err stdout stderr' = Resolved (Some r') h' \<and> reach h' r' a'"
  then have wf: "wf_heap (posix_records (split_on (CHR 0x0A) stdout)) h'" and r: "r' < length h'"
    using posix_wf by blast+
  from wf r p have a: "a' < length h'" by (blast intro: reach_in_range)
  show "(children (h' ! a') \<noteq> None) = (child_list (h' ! a') \<noteq> [])"
    using wf a by (rule present_iff_nonempty)
  show "sorted (map (\<lambda>c. pid (h' ! c)) (child_list (h' ! a')))"
    using wf a by (simp add: wf_heap_def)
  show "sorted_wrt (<) (map (\<lambda>c. pid (h' ! c)) (child_list (h' ! a')))"
    if "distinct (line_pids (split_on (CHR 0x0A) stdout))"
  proof -
    from p that have "strict_heap h'" using posix_wf(4) by blast
    with a show ?thesis by (simp add: strict_heap_def)
  qed
qed

theorem children_present_sorted_witness:
  "(case windows_listProcesses 1 [] (Some [snapshot 5 1, snapshot 3 1, snapshot 1 0, snapshot 4 1]) of
      Resolved (Some r) h \<Rightarrow>
        children (h ! r) \<noteq> None \<and> child_list (h ! r) \<noteq> []
        \<and> map (\<lambda>c. pid (h ! c)) (child_list (h ! r)) = [3, 4, 5]
        \<and> sorted_wrt (<) (map (\<lambda>c. pid (h ! c)) (child_list (h ! r)))
    | _ \<Rightarrow> False)
   \<and> (case posix_listProcesses 1 False
         (''1 0 0.0 0.0 a'' @ [CHR 0x0A] @ ''5 1 0.0 0.0 b'' @ [CHR 0x0A] @ ''3 1 0.0 0.0 c''
            @ [CHR 0x0A] @ ''4 1 0.0 0.0 d'') [] of
      Resolved (Some r) h \<Rightarrow>
        children (h ! r) \<noteq> None \<and> child_list (h ! r) \<noteq> []
        \<and> map (\<lambda>c. pid (h ! c)) (child_list (h ! r)) = [3, 4, 5]
        \<and> sorted_wrt (<) (map (\<lambda>c. pid (h ! c)) (child_list (h ! r)))
    | _ \<Rightarrow> False)"
proof -
  let ?items = "[snapshot 5 1, snapshot 3 1, snapshot 1 0, snapshot 4 1]"
  let ?out = "''1 0 0.0 0.0 a'' @ [CHR 0x0A] @ ''5 1 0.0 0.0 b'' @ [CHR 0x0A] @ ''3 1 0.0 0.0 c''
            @ [CHR 0x0A] @ ''4 1 0.0 0.0 d''"
  let ?w = "windows_listProcesses 1 [] (Some ?items)"
  let ?p = "posix_listProcesses 1 False ?out []"
  have "case ?w of Resolved (Some r) h \<Rightarrow>
      child_list (h ! r) \<noteq> [] \<and> map (\<lambda>c. pid (h ! c)) (child_list (h ! r)) = [3, 4, 5] | _ \<Rightarrow> False"
    by code_simp
  then obtain r h where w: "?w = Resolved (Some r) h"
    "child_list (h ! r) \<noteq> []" "map (\<lambda>c. pid (h ! c)) (child_list (h ! r)) = [3, 4, 5]"
    by (auto split: promise.splits option.splits)
  have "case ?p of Resolved (Some r) h \<Rightarrow>
      child_list (h ! r) \<noteq> [] \<and> map (\<lambda>c. pid (h ! c)) (child_list (h ! r)) = [3, 4, 5] | _ \<Rightarrow> False"
    by code_simp
  then obtain r' h' where p: "?p = Resolved (Some r') h'"
    "child_list (h' ! r') \<noteq> []" "map (\<lambda>c. pid (h' ! c)) (child_list (h' ! r')) = [3, 4, 5]"
    by (auto split: promise.splits option.splits)
  have d: "distinct (line_pids (split_on (CHR 0x0A) ?out))" by code_simp
  note t = children_present_sorted[of 1 "[]" ?items r h r False ?out "[]" r' h' r']
  from t w(1) have 1: "(children (h ! r) \<noteq> None) = (child_list (h ! r) \<noteq> [])"
    "sorted_wrt (<) (map (\<lambda>c. pid (h ! c)) (child_list (h ! r)))"
    using reach_root[of h r] by blast+
  from t p(1) d have 2: "(children (h' ! r') \<noteq> None) = (child_list (h' ! r') \<noteq> [])"
    "sorted_wrt (<) (map (\<lambda>c. pid (h' ! c)) (child_list (h' ! r')))"
    using reach_root[of h' r'] by blast+
  from 1 2 w(2,3) p(2,3) show ?thesis
    by (simp only: w(1) p(1) promise.case option.case) simp
qed

text \<open>
  C10. On Windows, a collected record whose parent pid is its own pid is, after the
  linking pass, among its own children; when it is reached from the root, the returned
  structure is not a tree: unfolding it from the root never ends, whatever the depth.
\<close>

theorem self_parent_own_child:
  assumes "windows_listProcesses rootPid stderr (Some items) = Resolved (Some r) h"
    and "a \<in> snd ` set (snd (collect items [] []))"
    and "ppid (h ! a) = pid (h ! a)"
  shows "a \<in> set (child_list (h ! a)) \<and> (reach h r a \<longrightarrow> (\<forall>n. tree_of n h r = None))"
proof -
  have self: "a \<in> set (child_list (h ! a))" using assms by (rule windows_wf(5))
  then have "\<forall>n. tree_of n h a = None" by (simp add: tree_of_self_child)
  then have "reach h r a \<longrightarrow> (\<forall>n. tree_of n h r = None)"
    by (blast intro: reach_tree_of_None[rule_format])
  with self show ?thesis by blast
qed

theorem self_parent_own_child_witness:
  "case windows_listProcesses 0 [] (Some [snapshot 0 0, snapshot 4 0, snapshot 8 4]) of
     Resolved (Some r) h \<Rightarrow>
       pid (h ! r) = 0 \<and> ppid (h ! r) = 0 \<and> r \<in> set (child_list (h ! r))
       \<and> (\<forall>n. tree_of n h r = None)
   | _ \<Rightarrow> False"
proof -
  let ?items = "[snapshot 0 0, snapshot 4 0, snapshot 8 4]"
  let ?w = "windows_listProcesses 0 [] (Some ?items)"
  have "case ?w of Resolved (Some r) h \<Rightarrow>
      r = 0 \<and> pid (h ! r) = 0 \<and> ppid (h ! r) = 0 | _ \<Rightarrow> False"
    by code_simp
  then obtain r h where w: "?w = Resolved (Some r) h" "r = 0" "pid (h ! r) = 0" "ppid (h ! r) = 0"
    by (auto split: promise.splits option.splits)
  have m: "r \<in> snd ` set (snd (collect ?items [] []))" unfolding w(2) by code_simp
  from self_parent_own_child[OF w(1) m] w(3,4) reach_root[of h r]
  have "r \<in> set (child_list (h ! r)) \<and> (\<forall>n. tree_of n h r = None)" by simp
  with w(3,4) show ?thesis by (simp only: w(1) promise.case option.case) simp
qed

text \<open>
  C4. On Windows, when no snapshot record carries the root pid, the call is rejected with
  the error \<^verbatim>\<open>Root process <pid> not found\<close>, the pid written in decimal. On POSIX, when no
  matching line carries the root pid, the call resolves with \<^verbatim>\<open>undefined\<close> (and nothing was
  allocated).
\<close>

theorem root_not_found:
  "(rootPid \<notin> {processId it | it. it \<in> set items \<and> type it = processInfo}
      \<longrightarrow> windows_listProcesses rootPid [] (Some items)
          = Rejected (Error (''Root process '' @ show_nat rootPid @ '' not found'')))
   \<and> (rootPid \<notin> fst ` posix_records (split_on (CHR 0x0A) stdout)
      \<longrightarrow> posix_listProcesses rootPid False stdout [] = Resolved None [])"
proof (intro conjI impI)
  assume a: "rootPid \<notin> {processId it | it. it \<in> set items \<and> type it = processInfo}"
  obtain h0 m where c: "collect items [] [] = (h0, m)" by (cases "collect items [] []")
  have "rootPid \<notin> dom (map_of (snd (collect items [] [])))"
    unfolding collect_dom using a by simp
  with c have "map_of m rootPid = None" by (simp add: domIff)
  with c show "windows_listProcesses rootPid [] (Some items)
          = Rejected (Error (''Root process '' @ show_nat rootPid @ '' not found''))"
    by (simp add: windows_listProcesses_def)
next
  assume "rootPid \<notin> fst ` posix_records (split_on (CHR 0x0A) stdout)"
  then have "posix_lines rootPid (split_on (CHR 0x0A) stdout) init_closure = init_closure"
    by (rule posix_lines_no_root) (simp add: init_closure_def)
  then show "posix_listProcesses rootPid False stdout [] = Resolved None []"
    by (simp add: posix_listProcesses_def init_closure_def)
qed

theorem root_not_found_witness:
  "windows_listProcesses 7 [] (Some [snapshot 1 0, snapshot 2 1])
      = Rejected (Error ''Root process 7 not found'')
   \<and> posix_listProcesses 7 False (''1 0 0.0 0.0 a'' @ [CHR 0x0A] @ ''2 1 0.0 0.0 b'') []
      = Resolved None []"
proof -
  let ?items = "[snapshot 1 0, snapshot 2 1]"
  let ?out = "''1 0 0.0 0.0 a'' @ [CHR 0x0A] @ ''2 1 0.0 0.0 b''"
  have 1: "7 \<notin> {processId it | it. it \<in> set ?items \<and> type it = processInfo}"
    by (auto simp: snapshot_def)
  have l: "split_on (CHR 0x0A) ?out = [''1 0 0.0 0.0 a'', ''2 1 0.0 0.0 b'']" by code_simp
  have r: "line_record ''1 0 0.0 0.0 a'' = Some (1, 0)" "line_record ''2 1 0.0 0.0 b'' = Some (2, 1)"
    by code_simp+
  have 2: "7 \<notin> fst ` posix_records (split_on (CHR 0x0A) ?out)"
    unfolding l by (auto simp: posix_records_def r)
  have s: "show_nat 7 = ''7''" by code_simp
  from root_not_found[of 7 ?items ?out] 1 2 s show ?thesis by simp
qed

lemma windows_descends:
  assumes "windows_listProcesses rootPid stderr (Some items) = Resolved (Some r) h" "reach h r a"
  shows "descends (win_records items) rootPid (pid (h ! a))"
  using reach_descends[OF windows_wf(1,3,4)[OF assms(1)] assms(2)] by simp

lemma posix_descends:
  assumes "posix_listProcesses rootPid err stdout stderr = Resolved (Some r) h" "reach h r a"
  shows "descends (posix_records (split_on (CHR 0x0A) stdout)) rootPid (pid (h ! a))"
  using reach_descends[OF posix_wf(1,2,3)[OF assms(1)] assms(2)] by simp

text \<open>
  C1. The listing with pid 1 (parent 0), pid 2 (parent 1), pid 3 (parent 1) and pid 4
  (parent 2), processed with root pid 1, gives on both paths the root record 1 with the
  children 2 and 3 in this order, the record 2 with the one child 4, and the records 3
  and 4 without children. On both paths and for every listing, every record of the
  returned structure has an ancestry chain in the listing that reaches the root pid: a
  record whose chain does not reach it is not in the structure.
\<close>

theorem listing_tree:
  "(case posix_listProcesses 1 False
          (''1 0 0.0 0.0 a'' @ [CHR 0x0A] @ ''2 1 0.0 0.0 b'' @ [CHR 0x0A]
             @ ''3 1 0.0 0.0 c'' @ [CHR 0x0A] @ ''4 2 0.0 0.0 d'') [] of
      Resolved (Some r) h \<Rightarrow>
        tree_of 3 h r = Some (PNode 1 (Some [PNode 2 (Some [PNode 4 None]), PNode 3 None]))
    | _ \<Rightarrow> False)
   \<and> (case windows_listProcesses 1 []
          (Some [snapshot 1 0, snapshot 2 1, snapshot 3 1, snapshot 4 2]) of
      Resolved (Some r) h \<Rightarrow>
        tree_of 3 h r = Some (PNode 1 (Some [PNode 2 (Some [PNode 4 None]), PNode 3 None]))
    | _ \<Rightarrow> False)
   \<and> (windows_listProcesses rootPid stderr (Some items) = Resolved (Some r) h \<and> reach h r a
        \<longrightarrow> descends (win_records items) rootPid (pid (h ! a)))
   \<and> (posix_listProcesses rootPid err stdout stderr' = Resolved (Some r') h' \<and> reach h' r' a'
        \<longrightarrow> descends (posix_records (split_on (CHR 0x0A) stdout)) rootPid (pid (h' ! a')))"
proof -
  have 1: "case posix_listProcesses 1 False
          (''1 0 0.0 0.0 a'' @ [CHR 0x0A] @ ''2 1 0.0 0.0 b'' @ [CHR 0x0A]
             @ ''3 1 0.0 0.0 c'' @ [CHR 0x0A] @ ''4 2 0.0 0.0 d'') [] of
      Resolved (Some r) h \<Rightarrow>
        tree_of 3 h r = Some (PNode 1 (Some [PNode 2 (Some [PNode 4 None]), PNode 3 None]))
    | _ \<Rightarrow> False"
    by code_simp
  have 2: "case windows_listProcesses 1 []
          (Some [snapshot 1 0, snapshot 2 1, snapshot 3 1, snapshot 4 2]) of
      Resolved (Some r) h \<Rightarrow>
        tree_of 3 h r = Some (PNode 1 (Some [PNode 2 (Some [PNode 4 None]), PNode 3 None]))
    | _ \<Rightarrow> False"
    by code_simp
  from 1 2 windows_descends posix_descends show ?thesis by blast
qed

lemma not_descends_example:
  assumes "R \<subseteq> {(1, 0), (2, 1), (3, 1), (4, 2), (9, 8)}"
  shows "\<not> descends R (1::nat) 9"
proof
  assume "descends R 1 9"
  then obtain pp where "(9, pp) \<in> R" "descends R 1 pp" by (cases rule: descends.cases) auto
  with assms have "descends R 1 8" by auto
  then obtain pp' where "(8, pp') \<in> R" by (cases rule: descends.cases) auto
  with assms show False by auto
qed

theorem listing_tree_witness:
  "(case windows_listProcesses 1 []
          (Some [snapshot 9 8, snapshot 4 2, snapshot 3 1, snapshot 2 1, snapshot 1 0]) of
      Resolved (Some r) h \<Rightarrow>
        tree_of 3 h r = Some (PNode 1 (Some [PNode 2 (Some [PNode 4 None]), PNode 3 None]))
        \<and> (\<forall>a. reach h r a \<longrightarrow> pid (h ! a) \<noteq> 9)
    | _ \<Rightarrow> False)
   \<and> (case posix_listProcesses 1 False
          (''9 8 0.0 0.0 z'' @ [CHR 0x0A] @ ''1 0 0.0 0.0 a'' @ [CHR 0x0A] @ ''3 1 0.0 0.0 c''
             @ [CHR 0x0A] @ ''2 1 0.0 0.0 b'' @ [CHR 0x0A] @ ''4 2 0.0 0.0 d'') [] of
      Resolved (Some r) h \<Rightarrow>
        tree_of 3 h r = Some (PNode 1 (Some [PNode 2 (Some [PNode 4 None]), PNode 3 None]))
        \<and> (\<forall>a. reach h r a \<longrightarrow> pid (h ! a) \<noteq> 9)
    | _ \<Rightarrow> False)"
proof -
  let ?items = "[snapshot 9 8, snapshot 4 2, snapshot 3 1, snapshot 2 1, snapshot 1 0]"
  let ?out = "''9 8 0.0 0.0 z'' @ [CHR 0x0A] @ ''1 0 0.0 0.0 a'' @ [CHR 0x0A] @ ''3 1 0.0 0.0 c''
             @ [CHR 0x0A] @ ''2 1 0.0 0.0 b'' @ [CHR 0x0A] @ ''4 2 0.0 0.0 d''"
  let ?w = "windows_listProcesses 1 [] (Some ?items)"
  let ?p = "posix_listProcesses 1 False ?out []"
  let ?t = "Some (PNode 1 (Some [PNode 2 (Some [PNode 4 None]), PNode 3 None]))"
  have "case ?w of Resolved (Some r) h \<Rightarrow> tree_of 3 h r = ?t | _ \<Rightarrow> False" by code_simp
  then obtain r h where w: "?w = Resolved (Some r) h" "tree_of 3 h r = ?t"
    by (auto split: promise.splits option.splits)
  have "case ?p of Resolved (Some r) h \<Rightarrow> tree_of 3 h r = ?t | _ \<Rightarrow> False" by code_simp
  then obtain r' h' where p: "?p = Resolved (Some r') h'" "tree_of 3 h' r' = ?t"
    by (auto split: promise.splits option.splits)
  have Rw: "win_records ?items \<subseteq> {(1, 0), (2, 1), (3, 1), (4, 2), (9, 8)}"
    by (auto simp: win_records_def snapshot_def)
  have l: "split_on (CHR 0x0A) ?out =
      [''9 8 0.0 0.0 z'', ''1 0 0.0 0.0 a'', ''3 1 0.0 0.0 c'', ''2 1 0.0 0.0 b'', ''4 2 0.0 0.0 d'']"
    by code_simp
  have lr: "line_record ''9 8 0.0 0.0 z'' = Some (9, 8)" "line_record ''1 0 0.0 0.0 a'' = Some (1, 0)"
    "line_record ''3 1 0.0 0.0 c'' = Some (3, 1)" "line_record ''2 1 0.0 0.0 b'' = Some (2, 1)"
    "line_record ''4 2 0.0 0.0 d'' = Some (4, 2)"
    by code_simp+
  have Rp: "posix_records (split_on (CHR 0x0A) ?out) \<subseteq> {(1, 0), (2, 1), (3, 1), (4, 2), (9, 8)}"
    unfolding l by (auto simp: posix_records_def lr)
  have a: "\<forall>a. reach h r a \<longrightarrow> pid (h ! a) \<noteq> 9"
  proof (intro allI impI)
    fix a assume "reach h r a"
    with listing_tree[of 1 "[]" ?items r h a False ?out "[]" r' h' a] w(1)
    have "descends (win_records ?items) 1 (pid (h ! a))" by blast
    with not_descends_example[OF Rw] show "pid (h ! a) \<noteq> 9" by metis
  qed
  have b: "\<forall>a. reach h' r' a \<longrightarrow> pid (h' ! a) \<noteq> 9"
  proof (intro allI impI)
    fix a assume "reach h' r' a"
    with listing_tree[of 1 "[]" ?items r h a False ?out "[]" r' h' a] p(1)
    have "descends (posix_records (split_on (CHR 0x0A) ?out)) 1 (pid (h' ! a))" by blast
    with not_descends_example[OF Rp] show "pid (h' ! a) \<noteq> 9" by metis
  qed
  from a b w(2) p(2) show ?thesis
    by (simp only: w(1) p(1) promise.case option.case)
qed

text \<open>On POSIX the order of the listing matters: a record listed before its parent is dropped.\<close>

lemma posix_child_before_parent:
  "case posix_listProcesses 1 False
          (''4 2 0.0 0.0 d'' @ [CHR 0x0A] @ ''1 0 0.0 0.0 a'' @ [CHR 0x0A] @ ''2 1 0.0 0.0 b''
             @ [CHR 0x0A] @ ''3 1 0.0 0.0 c'') [] of
      Resolved (Some r) h \<Rightarrow>
        tree_of 3 h r = Some (PNode 1 (Some [PNode 2 None, PNode 3 None]))
    | _ \<Rightarrow> False"
  by code_simp

end
